theory Spec2Isabelle
  imports Main "HOL-Library.Word"
begin

unbundle bit_operations_syntax

section \<open>JTAG TAP walker (jtag\_rpi.py)\<close>

subsection \<open>Data model\<close>

text \<open>
  The two enumerations of jtag\_rpi.py, constructor for constructor. The reset leg
  \<open>JtagLeg.RS\<close> is written \<open>RS_leg\<close>: the plain name is an infix of Isabelle/ML and
  breaks generated code.
\<close>

datatype JtagLeg = DR | IR | RS_leg | DL | ID | IRP | IRD | DRC | DRR | DRS

datatype JtagState =
  TEST_LOGIC_RESET | RUN_TEST_IDLE | SELECT_SCAN | CAPTURE | SHIFT
  | EXIT1 | PAUSE | EXIT2 | UPDATE

text \<open>
  The GPIO back end. The three output pins are written one at a time; the model keeps the
  ordered history of all writes. The target hanging on the pins is a function from that
  history to the level it currently drives on TDO: reading \<open>self.tdo.value\<close> is
  applying the target to the history so far.
\<close>

datatype pin = TCK | TMS | TDI

type_synonym pin_write = "pin \<times> bool"

type_synonym target = "pin_write list \<Rightarrow> bool"

text \<open>Python exceptions that the modelled code can raise.\<close>

datatype error =
  IndexError | KeyError | ValueError | TypeError | NotImplemented | SystemExit
  | StructError

text \<open>
  A row handed to \<open>parse_row\<close> is a list of Python objects; the ones that occur are
  strings (rows split from text) and integers (the rows that \<open>access\<close> builds).
\<close>

datatype field = S string | I int

text \<open>
  A leg is the three-element list \<open>[kind, bits, tag]\<close> built by \<open>parse_row\<close>; the tag is
  the row's fourth field as it came. \<open>cur_leg\<close> is either such a list or the empty list
  (\<open>None\<close> here).
\<close>

type_synonym leg = "JtagLeg \<times> string \<times> field"

text \<open>
  Modelled from the spec: the device catalogue class \<open>JTAGDevice\<close> (module
  jtag\_device, not part of the sources). The spec describes it as a read-only table
  \<open>{ir_len, idcode, names: name \<rightarrow> {address, width}, addresses: address \<rightarrow> {name, width}}\<close>;
  opcodes, register widths and IR lengths are bit patterns and bit counts, hence naturals.
  The two dictionaries are association lists, looked up with \<open>map_of\<close>.
\<close>

record JTAGRegister =
  name :: string
  address :: nat
  width :: nat

record JTAGDevice =
  ir_len :: nat
  idcode :: nat
  names :: "(string \<times> JTAGRegister) list"
  addresses :: "(nat \<times> JTAGRegister) list"

text \<open>
  The attributes of \<open>JTAGRpi\<close> set in \<open>__init__\<close>, with the pin objects replaced by the
  write history \<open>pins\<close>. (\<open>tdo_stash\<close> is never read; the attributes that \<open>access\<close>
  creates are written and read inside one call only and are \<open>let\<close>-bound there.)
\<close>

record JTAGRpi =
  devices :: "JTAGDevice list"
  last_ir_val :: int
  state :: JtagState
  jtag_legs :: "leg list"
  readout :: bool
  do_pause :: bool
  cur_leg :: "leg option"
  tdo_vect :: string
  jtag_results :: "int list"
  readdata :: int
  tms_reset_num :: int
  pins :: "pin_write list"

definition init_JTAGRpi :: JTAGRpi where
  "init_JTAGRpi =
     \<lparr>devices = [], last_ir_val = - 1, state = RUN_TEST_IDLE, jtag_legs = [],
      readout = False, do_pause = False, cur_leg = None, tdo_vect = [],
      jtag_results = [], readdata = 0, tms_reset_num = 7, pins = []\<rparr>"

subsection \<open>One clock cycle\<close>

text \<open>
  \<open>phy_sync\<close>: sample TDO first, then write TCK=0, TDI, TMS, TCK=1, TCK=0.
\<close>

definition cycle :: "bool \<Rightarrow> bool \<Rightarrow> pin_write list" where
  "cycle tdi tms = [(TCK, False), (TDI, tdi), (TMS, tms), (TCK, True), (TCK, False)]"

definition phy_sync :: "target \<Rightarrow> bool \<Rightarrow> bool \<Rightarrow> JTAGRpi \<Rightarrow> bool \<times> JTAGRpi" where
  "phy_sync tgt tdi tms s = (tgt (pins s), s\<lparr>pins := pins s @ cycle tdi tms\<rparr>)"

text \<open>\<open>int(tdo_vect, 2)\<close> on the strings the walker builds (only \<open>0\<close> and \<open>1\<close>
  characters are ever prepended); the empty string raises ValueError.\<close>

definition int_base2 :: "string \<Rightarrow> error + int" where
  "int_base2 v =
     (if v = [] \<or> (\<exists>c \<in> set v. c \<noteq> CHR ''0'' \<and> c \<noteq> CHR ''1'') then Inl ValueError
      else Inr (foldl (\<lambda>a c. 2 * a + (if c = CHR ''1'' then 1 else 0)) 0 v))"

definition tdo_char :: "bool \<Rightarrow> string" where
  "tdo_char tdo = (if tdo then ''1'' else ''0'')"

subsection \<open>\<open>jtag_step\<close>, branch by branch\<close>

definition step_run_test_idle :: "target \<Rightarrow> JTAGRpi \<Rightarrow> error + JTAGRpi" where
  "step_run_test_idle tgt s =
     (case cur_leg s of
        Some (k, bits, tag) \<Rightarrow>
          if k = DR \<or> k = DRC \<or> k = DRR \<or> k = DRS then
            let s1 = snd (phy_sync tgt False True s)
            in Inr (s1\<lparr>readout := (k = DRR \<or> k = DRS), state := SELECT_SCAN\<rparr>)
          else if k = IR \<or> k = IRD then
            let s1 = snd (phy_sync tgt False True s);
                s2 = snd (phy_sync tgt False True s1)
            in Inr (s2\<lparr>do_pause := False, state := SELECT_SCAN\<rparr>)
          else if k = IRP then
            let s1 = snd (phy_sync tgt False True s);
                s2 = snd (phy_sync tgt False True s1)
            in Inr (s2\<lparr>do_pause := True, state := SELECT_SCAN\<rparr>)
          else if k = RS_leg then
            let s1 = ((\<lambda>x. snd (phy_sync tgt False True x)) ^^ nat (tms_reset_num s)) s;
                s2 = s1\<lparr>state := TEST_LOGIC_RESET, last_ir_val := - 1\<rparr>
            in (case jtag_legs s2 of
                  [] \<Rightarrow> Inr (s2\<lparr>cur_leg := None\<rparr>)
                | l # ls \<Rightarrow> Inr (s2\<lparr>cur_leg := Some l, jtag_legs := ls\<rparr>))
          else if k = DL then
            (case jtag_legs s of
               [] \<Rightarrow> Inl IndexError
             | l # ls \<Rightarrow> Inr (s\<lparr>cur_leg := Some l, jtag_legs := ls\<rparr>))
          else if k = ID then
            let s1 = snd (phy_sync tgt False False s)
            in (case jtag_legs s1 of
                  [] \<Rightarrow> Inl IndexError
                | l # ls \<Rightarrow> Inr (s1\<lparr>cur_leg := Some l, jtag_legs := ls\<rparr>))
          else Inr s
      | None \<Rightarrow>
          let s1 = (case jtag_legs s of
                      l # ls \<Rightarrow> s\<lparr>cur_leg := Some l, jtag_legs := ls\<rparr>
                    | [] \<Rightarrow> snd (phy_sync tgt False False s))
          in Inr (s1\<lparr>state := RUN_TEST_IDLE\<rparr>))"

definition step_shift :: "target \<Rightarrow> JTAGRpi \<Rightarrow> error + JTAGRpi" where
  "step_shift tgt s =
     (case cur_leg s of
        None \<Rightarrow> Inl IndexError
      | Some (k, bits, tag) \<Rightarrow>
          if k = DRC \<or> k = DRS then Inl NotImplemented
          else if length bits > 1 then
            let tdi = (last bits = CHR ''1'');
                s1 = s\<lparr>cur_leg := Some (k, butlast bits, tag)\<rparr>;
                (tdo, s2) = phy_sync tgt tdi False s1
            in Inr (s2\<lparr>tdo_vect := tdo_char tdo @ tdo_vect s2, state := SHIFT\<rparr>)
          else
            (case bits of
               [] \<Rightarrow> Inl IndexError
             | c # cs \<Rightarrow>
                 let tdi = (c = CHR ''1'');
                     s1 = s\<lparr>cur_leg := None\<rparr>;
                     (tdo, s2) = phy_sync tgt tdi True s1
                 in Inr (s2\<lparr>tdo_vect := tdo_char tdo @ tdo_vect s2, state := EXIT1\<rparr>)))"

definition step_update :: "target \<Rightarrow> JTAGRpi \<Rightarrow> error + JTAGRpi" where
  "step_update tgt s =
     (case int_base2 (tdo_vect s) of
        Inl e \<Rightarrow> Inl e
      | Inr v \<Rightarrow>
          let s1 = s\<lparr>jtag_results := jtag_results s @ [v]\<rparr>;
              s2 = (if readout s1 then s1\<lparr>readdata := v, readout := False\<rparr> else s1);
              s3 = s2\<lparr>tdo_vect := []\<rparr>
          in (case jtag_legs s3 of
                (k, bits, tag) # ls \<Rightarrow>
                  if k = DR \<or> k = IRP \<or> k = IRD then
                    let s4 = (if k = IRP \<or> k = IRD then snd (phy_sync tgt False True s3) else s3);
                        s5 = (if k = IRP then s4\<lparr>do_pause := True\<rparr> else s4);
                        s6 = s5\<lparr>cur_leg := Some (k, bits, tag), jtag_legs := ls\<rparr>;
                        s7 = snd (phy_sync tgt False True s6)
                    in Inr (s7\<lparr>state := SELECT_SCAN\<rparr>)
                  else Inr ((snd (phy_sync tgt False False s3))\<lparr>state := RUN_TEST_IDLE\<rparr>)
              | [] \<Rightarrow> Inr ((snd (phy_sync tgt False False s3))\<lparr>state := RUN_TEST_IDLE\<rparr>)))"

definition jtag_step :: "target \<Rightarrow> JTAGRpi \<Rightarrow> error + JTAGRpi" where
  "jtag_step tgt s =
     (case state s of
        TEST_LOGIC_RESET \<Rightarrow>
          if jtag_legs s \<noteq> [] then
            Inr ((snd (phy_sync tgt False False s))\<lparr>state := RUN_TEST_IDLE, last_ir_val := - 1\<rparr>)
          else Inr s
      | RUN_TEST_IDLE \<Rightarrow> step_run_test_idle tgt s
      | SELECT_SCAN \<Rightarrow> Inr ((snd (phy_sync tgt False False s))\<lparr>state := CAPTURE\<rparr>)
      | CAPTURE \<Rightarrow> Inr ((snd (phy_sync tgt False False s))\<lparr>tdo_vect := [], state := SHIFT\<rparr>)
      | SHIFT \<Rightarrow> step_shift tgt s
      | EXIT1 \<Rightarrow>
          if do_pause s then
            Inr ((snd (phy_sync tgt False False s))\<lparr>state := PAUSE, do_pause := False\<rparr>)
          else Inr ((snd (phy_sync tgt False True s))\<lparr>state := UPDATE\<rparr>)
      | PAUSE \<Rightarrow> Inr ((snd (phy_sync tgt False True s))\<lparr>state := EXIT2\<rparr>)
      | EXIT2 \<Rightarrow> Inr ((snd (phy_sync tgt False True s))\<lparr>state := UPDATE\<rparr>)
      | UPDATE \<Rightarrow> step_update tgt s)"

subsection \<open>\<open>jtag_next\<close> and \<open>process_command\<close>\<close>

definition idle :: "JTAGRpi \<Rightarrow> bool" where
  "idle s = (state s = TEST_LOGIC_RESET \<or> state s = RUN_TEST_IDLE)"

text \<open>The loop ``run until out of idle'' of \<open>jtag_next\<close>, with its \<open>break\<close>.\<close>

partial_function (option) run_out_of_idle :: "target \<Rightarrow> JTAGRpi \<Rightarrow> (error + JTAGRpi) option"
where
  "run_out_of_idle tgt s =
     (if idle s then
        (case jtag_step tgt s of
           Inl e \<Rightarrow> Some (Inl e)
         | Inr s' \<Rightarrow> if cur_leg s' = None then Some (Inr s') else run_out_of_idle tgt s')
      else Some (Inr s))"

text \<open>The loop ``run to idle''.\<close>

partial_function (option) run_to_idle :: "target \<Rightarrow> JTAGRpi \<Rightarrow> (error + JTAGRpi) option"
where
  "run_to_idle tgt s =
     (if \<not> idle s then
        (case jtag_step tgt s of
           Inl e \<Rightarrow> Some (Inl e)
         | Inr s' \<Rightarrow> run_to_idle tgt s')
      else Some (Inr s))"

definition jtag_next :: "target \<Rightarrow> JTAGRpi \<Rightarrow> (error + JTAGRpi) option" where
  "jtag_next tgt s =
     (if idle s then
        if jtag_legs s \<noteq> [] then
          (case run_out_of_idle tgt s of
             None \<Rightarrow> None
           | Some (Inl e) \<Rightarrow> Some (Inl e)
           | Some (Inr s1) \<Rightarrow> run_to_idle tgt s1)
        else Some (jtag_step tgt s)
      else run_to_idle tgt s)"

partial_function (option) process_command :: "target \<Rightarrow> JTAGRpi \<Rightarrow> (error + JTAGRpi) option"
where
  "process_command tgt s =
     (if jtag_legs s \<noteq> [] then
        (case jtag_next tgt s of
           None \<Rightarrow> None
         | Some (Inl e) \<Rightarrow> Some (Inl e)
         | Some (Inr s') \<Rightarrow> process_command tgt s')
      else Some (Inr s))"

declare run_out_of_idle.simps [code]
declare run_to_idle.simps [code]
declare process_command.simps [code]

subsection \<open>Python built-ins used by \<open>parse_row\<close>\<close>

text \<open>\<open>str.strip\<close> and \<open>str.lower\<close> on ASCII text.\<close>

definition is_space :: "char \<Rightarrow> bool" where
  "is_space c = (of_char c \<in> {9, 10, 11, 12, 13, 28, 29, 30, 31, 32 :: nat})"

definition py_strip :: "string \<Rightarrow> string" where
  "py_strip s = rev (dropWhile is_space (rev (dropWhile is_space s)))"

definition py_lower :: "string \<Rightarrow> string" where
  "py_lower s =
     map (\<lambda>c. if 65 \<le> (of_char c :: nat) \<and> (of_char c :: nat) \<le> 90
              then char_of (of_char c + 32 :: nat) else c) s"

text \<open>Decimal and binary numerals of a natural number (\<open>str\<close>, \<open>%d\<close>, \<open>bin\<close>).\<close>

definition digit_char :: "nat \<Rightarrow> char" where
  "digit_char d = char_of (48 + d)"

function dec_digits :: "nat \<Rightarrow> string" where
  "dec_digits n = (if n < 10 then [digit_char n] else dec_digits (n div 10) @ [digit_char (n mod 10)])"
  by pat_completeness auto
termination
  by (relation "measure id") auto

function bin_digits :: "nat \<Rightarrow> string" where
  "bin_digits n = (if n < 2 then [digit_char n] else bin_digits (n div 2) @ [digit_char (n mod 2)])"
  by pat_completeness auto
termination
  by (relation "measure id") auto

declare dec_digits.simps [simp del]
declare bin_digits.simps [simp del]

text \<open>
  CPython (3.11 and later, and the security releases of 3.7 to 3.10) refuses to convert
  between \<open>int\<close> and text in a base that is not a power of two when more than
  \<open>sys.int_info.default_max_str_digits\<close> = 4300 digits are involved: \<open>str(n)\<close>,
  \<open>"%d" % n\<close> and \<open>int(text)\<close> then raise ValueError. \<open>bin\<close>, and \<open>int(text, 2)\<close> and
  \<open>int(text, 16)\<close>, have no such limit. Storage is taken to be unbounded.
\<close>

definition max_str_digits :: nat where
  "max_str_digits = 4300"

definition py_str_int :: "int \<Rightarrow> error + string" where
  "py_str_int n =
     (if length (dec_digits (nat \<bar>n\<bar>)) > max_str_digits then Inl ValueError
      else Inr (if n < 0 then CHR ''-'' # dec_digits (nat (- n)) else dec_digits (nat n)))"

definition py_bin :: "int \<Rightarrow> string" where
  "py_bin n = (if n < 0 then ''-0b'' @ bin_digits (nat (- n)) else ''0b'' @ bin_digits (nat n))"

definition py_str :: "field \<Rightarrow> error + string" where
  "py_str f = (case f of S s \<Rightarrow> Inr s | I n \<Rightarrow> py_str_int n)"

text \<open>
  \<open>int(text, base)\<close> for base 2, 10 and 16 on ASCII text: surrounding white space, an
  optional sign, for base 2 and 16 an optional \<open>0b\<close>/\<open>0x\<close> prefix, then digits, where
  single underscores may separate digits. Anything else raises ValueError, and so does
  base 10 text with more than \<open>max_str_digits\<close> digits.
\<close>

definition digit_val :: "char \<Rightarrow> nat option" where
  "digit_val c =
     (let n = (of_char c :: nat) in
      if 48 \<le> n \<and> n \<le> 57 then Some (n - 48)
      else if 97 \<le> n \<and> n \<le> 122 then Some (n - 87)
      else if 65 \<le> n \<and> n \<le> 90 then Some (n - 55)
      else None)"

fun parse_digits :: "nat \<Rightarrow> bool \<Rightarrow> nat \<Rightarrow> string \<Rightarrow> nat option" where
  "parse_digits b prev acc [] = (if prev then Some acc else None)"
| "parse_digits b prev acc (c # cs) =
     (if c = CHR ''_'' then (if prev \<and> cs \<noteq> [] then parse_digits b False acc cs else None)
      else (case digit_val c of
              None \<Rightarrow> None
            | Some d \<Rightarrow> if d < b then parse_digits b True (acc * b + d) cs else None))"

definition has_prefix :: "nat \<Rightarrow> string \<Rightarrow> bool" where
  "has_prefix b s =
     (case s of
        c0 # c1 # _ \<Rightarrow>
          c0 = CHR ''0'' \<and>
          ((b = 16 \<and> (c1 = CHR ''x'' \<or> c1 = CHR ''X'')) \<or> (b = 2 \<and> (c1 = CHR ''b'' \<or> c1 = CHR ''B'')))
      | _ \<Rightarrow> False)"

definition py_int_text :: "nat \<Rightarrow> string \<Rightarrow> error + int" where
  "py_int_text b txt =
     (let s = py_strip txt;
          neg = (s \<noteq> [] \<and> hd s = CHR ''-'');
          s1 = (if s \<noteq> [] \<and> (hd s = CHR ''-'' \<or> hd s = CHR ''+'') then tl s else s);
          r = (if has_prefix b s1
               then (if drop 2 s1 = [] then None else parse_digits b True 0 (drop 2 s1))
               else parse_digits b False 0 s1)
      in case r of
           None \<Rightarrow> Inl ValueError
         | Some n \<Rightarrow>
             if b = 10 \<and> length (filter (\<lambda>c. c \<noteq> CHR ''_'') s1) > max_str_digits
             then Inl ValueError
             else Inr (if neg then - int n else int n))"

text \<open>\<open>int(x)\<close>: an integer is returned as it is, text is read in base 10.\<close>

definition py_int :: "field \<Rightarrow> error + int" where
  "py_int f = (case f of I n \<Rightarrow> Inr n | S s \<Rightarrow> py_int_text 10 s)"

text \<open>\<open>int(x, base)\<close>: with an explicit base only text is accepted.\<close>

definition py_int_base :: "nat \<Rightarrow> field \<Rightarrow> error + int" where
  "py_int_base b f = (case f of I n \<Rightarrow> Inl TypeError | S s \<Rightarrow> py_int_text b s)"

text \<open>
  \<open>"%0*d" % (width, n)\<close>: at least \<open>width\<close> characters, zero-filled after the sign; a
  negative width left-justifies and fills with blanks. A number of more than
  \<open>max_str_digits\<close> decimal digits raises ValueError.
\<close>

definition fmt_0star_d :: "int \<Rightarrow> int \<Rightarrow> error + string" where
  "fmt_0star_d w n =
     (let body = dec_digits (nat \<bar>n\<bar>);
          sign = (if n < 0 then ''-'' else [])
      in if length body > max_str_digits then Inl ValueError
         else if 0 \<le> w
         then Inr (sign @ replicate (nat w - (length sign + length body)) (CHR ''0'') @ body)
         else Inr (sign @ body @ replicate (nat (- w) - (length sign + length body)) (CHR '' '')))"

subsection \<open>\<open>parse_row\<close>, \<open>parse_rows\<close>, \<open>reset_fsm\<close>\<close>

definition chains :: "string list" where
  "chains = [''dr'', ''ir'', ''rs'', ''dl'', ''id'', ''irp'', ''ird'', ''drc'', ''drr'', ''drs'']"

definition parse_value :: "field \<Rightarrow> error + int" where
  "parse_value f =
     (case py_str f of
        Inl e \<Rightarrow> Inl e
      | Inr t \<Rightarrow>
          if take 2 (py_strip t) = ''0x'' then py_int_base 16 f
          else if take 2 (py_strip t) = ''0b'' then py_int_base 2 f
          else py_int f)"

text \<open>The bit string \<open>"%0*d" % (length, int(bin(value)[2:]))\<close>.\<close>

definition leg_bits :: "int \<Rightarrow> int \<Rightarrow> error + string" where
  "leg_bits len v =
     (case py_int_text 10 (drop 2 (py_bin v)) of
        Inl e \<Rightarrow> Inl e
      | Inr n \<Rightarrow> fmt_0star_d len n)"

definition parse_row :: "JTAGRpi \<Rightarrow> field list \<Rightarrow> error + JTAGRpi" where
  "parse_row s row =
     (if length row < 3 then Inr s
      else
        (case py_str (row ! 0) of
           Inl e \<Rightarrow> Inl e
         | Inr t \<Rightarrow>
             let chain = py_strip (py_lower t) in
             if chain = [] then Inl IndexError
             else if hd chain = CHR ''#'' then Inr s
             else
               (case py_int (row ! 1) of
                  Inl e \<Rightarrow> Inl e
                | Inr len \<Rightarrow>
                    (case parse_value (row ! 2) of
                       Inl e \<Rightarrow> Inl e
                     | Inr v \<Rightarrow>
                         if chain \<notin> set chains then Inl SystemExit
                         else if chain = ''rs'' then
                           Inr (s\<lparr>jtag_legs := jtag_legs s @ [(RS_leg, ''0'', S ''0'')]\<rparr>)
                         else if chain = ''dl'' then
                           Inr (s\<lparr>jtag_legs := jtag_legs s @ [(DL, ''0'', S ''0'')]\<rparr>)
                         else if chain = ''id'' then
                           Inr (s\<lparr>jtag_legs := jtag_legs s @ [(ID, ''0'', S ''0'')]\<rparr>)
                         else if chain = ''drc'' \<or> chain = ''drr'' \<or> chain = ''drs'' then
                           Inl NotImplemented
                         else
                           let code = (if chain = ''dr'' then DR
                                       else if chain = ''ir'' then IR
                                       else if chain = ''ird'' then IRD
                                       else IRP)
                           in (case leg_bits len v of
                                 Inl e \<Rightarrow> Inl e
                               | Inr bits \<Rightarrow>
                                   Inr (s\<lparr>jtag_legs := jtag_legs s @
                                          [(code, bits,
                                            if length row > 3 then row ! 3 else S '' '')]\<rparr>))))))"

fun parse_row_loop :: "JTAGRpi \<Rightarrow> field list list \<Rightarrow> error + JTAGRpi" where
  "parse_row_loop s [] = Inr s"
| "parse_row_loop s (row # rows) =
     (case parse_row s row of Inl e \<Rightarrow> Inl e | Inr s' \<Rightarrow> parse_row_loop s' rows)"

definition parse_rows :: "target \<Rightarrow> JTAGRpi \<Rightarrow> field list list \<Rightarrow> (error + JTAGRpi) option" where
  "parse_rows tgt s rows =
     (case parse_row_loop (s\<lparr>jtag_legs := [], cur_leg := None, jtag_results := []\<rparr>) rows of
        Inl e \<Rightarrow> Some (Inl e)
      | Inr s1 \<Rightarrow> process_command tgt s1)"

text \<open>\<open>reset_fsm\<close>: the row is \<open>"rs, 0, 0".split(",")\<close>.\<close>

definition reset_fsm :: "target \<Rightarrow> int \<Rightarrow> JTAGRpi \<Rightarrow> (error + JTAGRpi) option" where
  "reset_fsm tgt num s =
     parse_rows tgt (s\<lparr>tms_reset_num := num\<rparr>) [[S ''rs'', S '' 0'', S '' 0'']]"

subsection \<open>Chain access\<close>

text \<open>Python list indexing, negative indices counting from the end.\<close>

definition py_index :: "'a list \<Rightarrow> int \<Rightarrow> error + 'a" where
  "py_index xs i =
     (if 0 \<le> i \<and> i < int (length xs) then Inr (xs ! nat i)
      else if i < 0 \<and> - int (length xs) \<le> i then Inr (xs ! nat (int (length xs) + i))
      else Inl IndexError)"

text \<open>\<open>device.addresses[addr]\<close> and \<open>device.names[key].address\<close>; a missing key raises KeyError.\<close>

definition lookup_address :: "JTAGDevice \<Rightarrow> int \<Rightarrow> error + JTAGRegister" where
  "lookup_address d a =
     (if a < 0 then Inl KeyError
      else case map_of (addresses d) (nat a) of None \<Rightarrow> Inl KeyError | Some r \<Rightarrow> Inr r)"

definition name_address :: "JTAGDevice \<Rightarrow> string \<Rightarrow> error + int" where
  "name_address d key =
     (case map_of (names d) key of None \<Rightarrow> Inl KeyError | Some r \<Rightarrow> Inr (int (address r)))"

text \<open>
  The loop \<open>for i, d in reversed(list(enumerate(self.devices)))\<close> accumulating
  \<open>(total_ir_val, total_ir_len)\<close>; \<open>ir_val\<close> is an integer on every path that reaches it.
\<close>

fun ir_loop :: "int \<Rightarrow> int \<Rightarrow> (nat \<times> JTAGDevice) list \<Rightarrow> int \<times> nat \<Rightarrow> error + (int \<times> nat)" where
  "ir_loop device ir_val [] acc = Inr acc"
| "ir_loop device ir_val ((i, d) # rest) (total_ir_val, total_ir_len) =
     (case (if int i = device then Inr ir_val else name_address d ''BYPASS'') of
        Inl e \<Rightarrow> Inl e
      | Inr v \<Rightarrow>
          ir_loop device ir_val rest
            (total_ir_val + push_bit total_ir_len v, total_ir_len + ir_len d))"

definition total_ir :: "JTAGDevice list \<Rightarrow> int \<Rightarrow> int \<Rightarrow> error + (int \<times> nat)" where
  "total_ir devs device ir_val = ir_loop device ir_val (rev (enumerate 0 devs)) (0, 0)"

text \<open>
  The attributes that \<open>access\<close> sets on the object before it runs the walker, and the
  rows it builds (lines 446 to 494 of jtag\_rpi.py).
\<close>

record access_vars =
  device :: int
  jwrite :: bool
  dr_len :: nat
  dr_mask :: int
  total_dr_val :: "int option"
  total_dr_len :: int
  ir_val :: int
  total_ir_len :: nat
  total_ir_val :: int
  dr_val :: int
  rows :: "field list list"

definition access_rows :: "JTAGRpi \<Rightarrow> field \<Rightarrow> int \<Rightarrow> int \<Rightarrow> bool \<Rightarrow> error + access_vars" where
  "access_rows s addr data dev write =
     (case py_index (devices s) dev of
        Inl e \<Rightarrow> Inl e
      | Inr active_device \<Rightarrow>
          (case (case addr of S key \<Rightarrow> name_address active_device key | I a \<Rightarrow> Inr a) of
             Inl e \<Rightarrow> Inl e
           | Inr a \<Rightarrow>
               (case lookup_address active_device a of
                  Inl e \<Rightarrow> Inl e
                | Inr reg \<Rightarrow>
                    let n = int (length (devices s));
                        sh = nat (n - 1 - dev)
                    in (case total_ir (devices s) dev a of
                          Inl e \<Rightarrow> Inl e
                        | Inr (tval, tlen) \<Rightarrow>
                            let dv = (if write then push_bit sh data else 0) in
                            Inr \<lparr>device = dev, jwrite = write, dr_len = width reg,
                                 dr_mask = 2 ^ width reg - 1,
                                 total_dr_val = (if data = - 1 then None else Some (push_bit sh data)),
                                 total_dr_len = int (width reg) + n - 1,
                                 ir_val = a, total_ir_len = tlen, total_ir_val = tval, dr_val = dv,
                                 rows =
                                   (if tval \<noteq> last_ir_val s
                                    then [[S ''ir'', I (int tlen), I tval, S ''id'']] else []) @
                                   [[S ''dr'', I (int (width reg) + n - 1), I dv]]\<rparr>))))"

text \<open>
  \<open>access\<close>: build the rows, run them, remember the IR value, pop the last result and
  align it. The result is the returned data and the new object state.
\<close>

definition access ::
  "target \<Rightarrow> JTAGRpi \<Rightarrow> field \<Rightarrow> int \<Rightarrow> int \<Rightarrow> bool \<Rightarrow> (error + (int \<times> JTAGRpi)) option" where
  "access tgt s addr data dev write =
     (case access_rows s addr data dev write of
        Inl e \<Rightarrow> Some (Inl e)
      | Inr v \<Rightarrow>
          (case parse_rows tgt s (rows v) of
             None \<Rightarrow> None
           | Some (Inl e) \<Rightarrow> Some (Inl e)
           | Some (Inr s1) \<Rightarrow>
               let s2 = s1\<lparr>last_ir_val := total_ir_val v\<rparr> in
               if jtag_results s2 = [] then Some (Inl IndexError)
               else
                 let raw = last (jtag_results s2);
                     s3 = s2\<lparr>jtag_results := butlast (jtag_results s2)\<rparr>;
                     sh = nat (int (length (devices s3)) - 1 - device v)
                 in Some (Inr (drop_bit sh raw AND dr_mask v, s3))))"

text \<open>
  The methods \<open>read\<close> and \<open>write\<close> wrap \<open>access\<close> (the mismatch of a read is only
  logged); \<open>write\<close> is a keyword here, hence the prefix.
\<close>

definition rpi_read :: "target \<Rightarrow> JTAGRpi \<Rightarrow> field \<Rightarrow> int \<Rightarrow> int \<Rightarrow> (error + (int \<times> JTAGRpi)) option" where
  "rpi_read tgt s addr data dev = access tgt s addr data dev False"

definition rpi_write :: "target \<Rightarrow> JTAGRpi \<Rightarrow> field \<Rightarrow> int \<Rightarrow> int \<Rightarrow> (error + (int \<times> JTAGRpi)) option" where
  "rpi_write tgt s addr data dev = access tgt s addr data dev True"

section \<open>XVC server (xvcpi.py)\<close>

subsection \<open>Pin access and bit transfer\<close>

type_synonym byte = "8 word"

text \<open>
  \<open>gpio_write\<close> sets TCK, TMS, TDI in this order, each to \<open>bool\<close> of its argument; the
  busy-wait that follows has no effect on the pins. \<open>gpio_read\<close> is 1 or 0.
\<close>

definition gpio_write :: "nat \<Rightarrow> nat \<Rightarrow> nat \<Rightarrow> pin_write list \<Rightarrow> pin_write list" where
  "gpio_write tck tms tdi h = h @ [(TCK, tck \<noteq> 0), (TMS, tms \<noteq> 0), (TDI, tdi \<noteq> 0)]"

definition gpio_read :: "target \<Rightarrow> pin_write list \<Rightarrow> nat" where
  "gpio_read tgt h = (if tgt h then 1 else 0)"

definition transfer_bit ::
  "target \<Rightarrow> nat \<Rightarrow> nat \<Rightarrow> nat \<Rightarrow> nat \<times> pin_write list \<Rightarrow> nat \<times> pin_write list" where
  "transfer_bit tgt tms_data tdi_data i acc =
     (let tms_bit = drop_bit i tms_data AND 1;
          tdi_bit = drop_bit i tdi_data AND 1;
          h1 = gpio_write 0 tms_bit tdi_bit (snd acc);
          h2 = gpio_write 1 tms_bit tdi_bit h1;
          tdo_bit = gpio_read tgt h2;
          tdo_data = fst acc OR push_bit i tdo_bit;
          h3 = gpio_write 0 tms_bit tdi_bit h2
      in (tdo_data, h3))"

definition gpio_transfer ::
  "target \<Rightarrow> nat \<Rightarrow> nat \<Rightarrow> nat \<Rightarrow> pin_write list \<Rightarrow> nat \<times> pin_write list" where
  "gpio_transfer tgt num_bits tms_data tdi_data h =
     fold (transfer_bit tgt tms_data tdi_data) [0..<num_bits] (0, h)"

subsection \<open>\<open>struct\<close> and slices\<close>

text \<open>\<open>struct.unpack('<I', b)[0]\<close> and \<open>struct.pack('<I', n)\<close>: little-endian 32 bit.\<close>

definition unpack_I :: "byte list \<Rightarrow> error + nat" where
  "unpack_I bs =
     (if length bs = 4
      then Inr (unat (bs ! 0) + 2 ^ 8 * unat (bs ! 1) + 2 ^ 16 * unat (bs ! 2) + 2 ^ 24 * unat (bs ! 3))
      else Inl StructError)"

definition pack_I :: "nat \<Rightarrow> error + byte list" where
  "pack_I n =
     (if n < 2 ^ 32
      then Inr [of_nat n, of_nat (n div 2 ^ 8), of_nat (n div 2 ^ 16), of_nat (n div 2 ^ 24)]
      else Inl StructError)"

text \<open>\<open>xs[a:b]\<close> and the assignment \<open>xs[a:b] = ys\<close>, for \<open>0 \<le> a \<le> b\<close>.\<close>

definition py_slice :: "'a list \<Rightarrow> nat \<Rightarrow> nat \<Rightarrow> 'a list" where
  "py_slice xs a b = take (b - a) (drop a xs)"

definition slice_assign :: "'a list \<Rightarrow> nat \<Rightarrow> nat \<Rightarrow> 'a list \<Rightarrow> 'a list" where
  "slice_assign xs a b ys = take a xs @ ys @ drop b xs"

subsection \<open>\<open>handle_shift\<close>\<close>

text \<open>
  The \<open>while bytes_left > 0\<close> loop; its variables are the arguments after the buffer.
\<close>

function shift_loop ::
  "target \<Rightarrow> nat \<Rightarrow> byte list \<Rightarrow> nat \<Rightarrow> nat \<Rightarrow> nat \<Rightarrow> byte list \<Rightarrow> pin_write list
     \<Rightarrow> error + (byte list \<times> pin_write list)" where
  "shift_loop tgt num_bytes buffer bytes_left bits_left byte_index result h =
     (if bytes_left > 0 then
        if bytes_left \<ge> 4 \<and> bits_left \<ge> 32 then
          (case unpack_I (py_slice buffer byte_index (byte_index + 4)) of
             Inl e \<Rightarrow> Inl e
           | Inr tms \<Rightarrow>
               (case unpack_I (py_slice buffer (byte_index + num_bytes) (byte_index + num_bytes + 4)) of
                  Inl e \<Rightarrow> Inl e
                | Inr tdi \<Rightarrow>
                    (case pack_I (fst (gpio_transfer tgt 32 tms tdi h)) of
                       Inl e \<Rightarrow> Inl e
                     | Inr tdo_bytes \<Rightarrow>
                         shift_loop tgt num_bytes buffer (bytes_left - 4) (bits_left - 32)
                           (byte_index + 4)
                           (slice_assign result byte_index (byte_index + 4) tdo_bytes)
                           (snd (gpio_transfer tgt 32 tms tdi h)))))
        else
          (let chunk_bytes = bytes_left;
               chunk_bits = bits_left;
               tms_bytes = py_slice buffer byte_index (byte_index + chunk_bytes);
               tdi_bytes = py_slice buffer (byte_index + num_bytes) (byte_index + num_bytes + chunk_bytes);
               tms_padded = tms_bytes @ replicate (4 - length tms_bytes) 0;
               tdi_padded = tdi_bytes @ replicate (4 - length tdi_bytes) 0
           in case unpack_I tms_padded of
                Inl e \<Rightarrow> Inl e
              | Inr tms \<Rightarrow>
                  (case unpack_I tdi_padded of
                     Inl e \<Rightarrow> Inl e
                   | Inr tdi \<Rightarrow>
                       (case pack_I (fst (gpio_transfer tgt chunk_bits tms tdi h)) of
                          Inl e \<Rightarrow> Inl e
                        | Inr packed \<Rightarrow>
                            Inr (slice_assign result byte_index (byte_index + chunk_bytes)
                                   (take chunk_bytes packed),
                                 snd (gpio_transfer tgt chunk_bits tms tdi h)))))
      else Inr (result, h))"
  by pat_completeness auto
termination
  by (relation "measure (\<lambda>(tgt, num_bytes, buffer, bytes_left, rest). bytes_left)") auto

declare shift_loop.simps [simp del]

definition handle_shift ::
  "target \<Rightarrow> nat \<Rightarrow> byte list \<Rightarrow> pin_write list \<Rightarrow> error + (byte list \<times> pin_write list)" where
  "handle_shift tgt len buffer h =
     (let num_bytes = (len + 7) div 8;
          h1 = gpio_write 0 1 1 h
      in case shift_loop tgt num_bytes buffer num_bytes len 0 (replicate num_bytes 0) h1 of
           Inl e \<Rightarrow> Inl e
         | Inr (result, h2) \<Rightarrow> Inr (result, gpio_write 0 1 0 h2))"

subsection \<open>Command framing\<close>

definition XVC_VERSION :: "byte list" where
  "XVC_VERSION = map of_char ''xvcServer_v1.0:2048'' @ [10]"

definition handle_getinfo :: "byte list" where
  "handle_getinfo = XVC_VERSION"

definition handle_settck :: "byte list \<Rightarrow> byte list" where
  "handle_settck period_data = period_data"

text \<open>
  A client connection: the bytes the client still sends before it closes its side, the
  bytes the server has sent to it, and whether the server has closed it. \<open>safe_read\<close>
  returns exactly the requested bytes, or nothing when the client's bytes run out first
  (the stream has ended; a client that stays silent without closing only delays this).
\<close>

record conn =
  inbox :: "byte list"
  outbox :: "byte list"
  closed :: bool

definition safe_read :: "conn \<Rightarrow> nat \<Rightarrow> (byte list \<times> conn) option" where
  "safe_read c n =
     (if length (inbox c) < n then None
      else Some (take n (inbox c), c\<lparr>inbox := drop n (inbox c)\<rparr>))"

definition sendall :: "conn \<Rightarrow> byte list \<Rightarrow> conn" where
  "sendall c bs = c\<lparr>outbox := outbox c @ bs\<rparr>"

definition ascii :: "string \<Rightarrow> byte list" where
  "ascii s = map of_char s"

text \<open>
  The command loop of \<open>handle_client\<close> (\<open>while self.running\<close>, with the flag up). Every
  \<open>break\<close>, and every exception, which the handler catches, leaves the loop.
\<close>

function client_loop :: "target \<Rightarrow> conn \<Rightarrow> pin_write list \<Rightarrow> conn \<times> pin_write list" where
  "client_loop tgt c h =
     (case safe_read c 2 of
        None \<Rightarrow> (c, h)
      | Some (cmd_prefix, c1) \<Rightarrow>
          if cmd_prefix = ascii ''ge'' then
            (case safe_read c1 6 of
               None \<Rightarrow> (c1, h)
             | Some (remaining, c2) \<Rightarrow> client_loop tgt (sendall c2 handle_getinfo) h)
          else if cmd_prefix = ascii ''se'' then
            (case safe_read c1 9 of
               None \<Rightarrow> (c1, h)
             | Some (remaining, c2) \<Rightarrow>
                 client_loop tgt (sendall c2 (handle_settck (drop 5 remaining))) h)
          else if cmd_prefix = ascii ''sh'' then
            (case safe_read c1 4 of
               None \<Rightarrow> (c1, h)
             | Some (remaining, c2) \<Rightarrow>
                 (case safe_read c2 4 of
                    None \<Rightarrow> (c2, h)
                  | Some (length_data, c3) \<Rightarrow>
                      (case unpack_I length_data of
                         Inl e \<Rightarrow> (c3, h)
                       | Inr len \<Rightarrow>
                           let num_bytes = (len + 7) div 8;
                               buffer_size = num_bytes * 2
                           in if buffer_size > 4096 then (c3, h)
                              else
                                (case safe_read c3 buffer_size of
                                   None \<Rightarrow> (c3, h)
                                 | Some (buffer, c4) \<Rightarrow>
                                     if buffer = [] then (c4, h)
                                     else
                                       (case handle_shift tgt len buffer h of
                                          Inl e \<Rightarrow> (c4, h)
                                        | Inr (response, h') \<Rightarrow>
                                            client_loop tgt (sendall c4 response) h')))))
          else (c1, h))"
  by pat_completeness auto
termination
  by (relation "measure (\<lambda>(tgt, c, h). length (inbox c))")
    (auto simp: safe_read_def sendall_def split: if_splits)

declare client_loop.simps [simp del]

text \<open>\<open>handle_client\<close>: the loop, then \<open>conn.close()\<close> in the \<open>finally\<close> clause.\<close>

definition handle_client :: "target \<Rightarrow> conn \<Rightarrow> pin_write list \<Rightarrow> conn \<times> pin_write list" where
  "handle_client tgt c h = (let (c', h') = client_loop tgt c h in (c'\<lparr>closed := True\<rparr>, h'))"

text \<open>
  The accept loop of \<open>start_server\<close> over the connections that arrive, in order: each is
  handled to its end before the next is accepted. \<open>init_gpio\<close> has written
  \<open>gpio_write(0, 1, 0)\<close> before the first one.
\<close>

fun accept_loop :: "target \<Rightarrow> conn list \<Rightarrow> pin_write list \<Rightarrow> conn list \<times> pin_write list" where
  "accept_loop tgt [] h = ([], h)"
| "accept_loop tgt (c # cs) h =
     (let (c', h') = handle_client tgt c h;
          (cs', h'') = accept_loop tgt cs h'
      in (c' # cs', h''))"

definition start_server :: "target \<Rightarrow> conn list \<Rightarrow> conn list \<times> pin_write list" where
  "start_server tgt cs = accept_loop tgt cs (gpio_write 0 1 0 [])"


section \<open>Notions used to state the properties\<close>

text \<open>
  \<open>steps tgt n s\<close> is the outcome of \<open>n\<close> consecutive calls of \<open>jtag_step\<close> (an
  exception ends the sequence); \<open>state_after tgt n s\<close> is the object state after the first
  \<open>n\<close> calls.
\<close>

fun steps :: "target \<Rightarrow> nat \<Rightarrow> JTAGRpi \<Rightarrow> error + JTAGRpi" where
  "steps tgt 0 s = Inr s"
| "steps tgt (Suc n) s = (case jtag_step tgt s of Inl e \<Rightarrow> Inl e | Inr s' \<Rightarrow> steps tgt n s')"

fun state_after :: "target \<Rightarrow> nat \<Rightarrow> JTAGRpi \<Rightarrow> JTAGRpi" where
  "state_after tgt 0 s = s"
| "state_after tgt (Suc n) s = (case jtag_step tgt s of Inl e \<Rightarrow> s | Inr s' \<Rightarrow> state_after tgt n s')"

text \<open>
  The pin writes of the shift cycle of bit \<open>i\<close> of a leg (bit 0 is the last character),
  and the pin history after \<open>i\<close> shift cycles that began at history \<open>h\<close>.
\<close>

definition shift_cycle :: "string \<Rightarrow> nat \<Rightarrow> pin_write list" where
  "shift_cycle bits i =
     cycle (bits ! (length bits - 1 - i) = CHR ''1'') (i = length bits - 1)"

definition shift_pins :: "pin_write list \<Rightarrow> string \<Rightarrow> nat \<Rightarrow> pin_write list" where
  "shift_pins h bits i = h @ concat (map (shift_cycle bits) [0..<i])"

definition bit_char :: "bool \<Rightarrow> char" where
  "bit_char b = (if b then CHR ''1'' else CHR ''0'')"

text \<open>The state after \<open>i\<close> shift cycles of a leg whose shifting began in \<open>s\<close>.\<close>

definition shifted :: "target \<Rightarrow> JTAGRpi \<Rightarrow> JtagLeg \<Rightarrow> string \<Rightarrow> field \<Rightarrow> nat \<Rightarrow> JTAGRpi" where
  "shifted tgt s k bits tag i =
     s\<lparr>cur_leg := (if i < length bits then Some (k, take (length bits - i) bits, tag) else None),
       pins := shift_pins (pins s) bits i,
       tdo_vect := map (\<lambda>j. bit_char (tgt (shift_pins (pins s) bits j))) (rev [0..<i]) @ tdo_vect s,
       state := (if i < length bits then SHIFT else EXIT1)\<rparr>"

text \<open>\<open>n\<close> calls of \<open>jtag_step\<close> lead from \<open>s\<close> to \<open>s'\<close>, none begun in an idle state.\<close>

definition busy_steps :: "target \<Rightarrow> nat \<Rightarrow> JTAGRpi \<Rightarrow> JTAGRpi \<Rightarrow> bool" where
  "busy_steps tgt n s s' \<longleftrightarrow>
     steps tgt n s = Inr s' \<and> (\<forall>i<n. \<not> idle (state_after tgt i s))"

text \<open>The TDO samples of the shift cycles of a leg, the first one weighted \<open>2 ^ 0\<close>.\<close>

definition scan_value :: "target \<Rightarrow> pin_write list \<Rightarrow> string \<Rightarrow> int" where
  "scan_value tgt h bits = (\<Sum>i<length bits. if tgt (shift_pins h bits i) then 2 ^ i else 0)"

text \<open>The state in which a leg that entered Select-Scan in \<open>s\<close> reaches Update.\<close>

definition at_update :: "target \<Rightarrow> JTAGRpi \<Rightarrow> string \<Rightarrow> JTAGRpi" where
  "at_update tgt s bits =
     s\<lparr>state := UPDATE, cur_leg := None, do_pause := False,
       tdo_vect := map (\<lambda>j. bit_char (tgt (shift_pins (pins s @ cycle False False @ cycle False False) bits j)))
                     (rev [0..<length bits]),
       pins := shift_pins (pins s @ cycle False False @ cycle False False) bits (length bits) @
               (if do_pause s then cycle False False @ cycle False True @ cycle False True
                else cycle False True)\<rparr>"


text \<open>Concrete inputs for the witnesses: a leg about to be scanned, and a target whose TDO
  level alternates from one clock cycle to the next.\<close>

definition scan_start :: JTAGRpi where
  "scan_start = init_JTAGRpi\<lparr>state := SELECT_SCAN, cur_leg := Some (DR, ''110'', S '' '')\<rparr>"

definition toggling :: target where
  "toggling h = even (length h div 5)"


text \<open>The freshly constructed walker with the queue [IRP \<open>1\<close>, DR \<open>0\<close>].\<close>

definition irp_dr_start :: JTAGRpi where
  "irp_dr_start = init_JTAGRpi\<lparr>jtag_legs := [(IRP, ''1'', S '' ''), (DR, ''0'', S '' '')]\<rparr>"


section \<open>Notions used to state tag independence\<close>

text \<open>
  \<open>untag\<close> erases the tag of every pending leg and of the active leg; two rows are the
  same but for the tag when they agree everywhere except in the fourth field, which either
  may lack; \<open>observed\<close> keeps of a run its pin history and its results.
\<close>

definition untag_leg :: "leg \<Rightarrow> leg" where
  "untag_leg l = (fst l, fst (snd l), S [])"

definition untag :: "JTAGRpi \<Rightarrow> JTAGRpi" where
  "untag s = s\<lparr>jtag_legs := map untag_leg (jtag_legs s), cur_leg := map_option untag_leg (cur_leg s)\<rparr>"

definition same_but_tag :: "field list \<Rightarrow> field list \<Rightarrow> bool" where
  "same_but_tag r r' \<longleftrightarrow> take 3 r = take 3 r' \<and> drop 4 r = drop 4 r'"

definition observed :: "(error + JTAGRpi) option \<Rightarrow> (error + pin_write list \<times> int list) option" where
  "observed r = map_option (map_sum id (\<lambda>s. (pins s, jtag_results s))) r"

text \<open>Two batches that differ in tags only.\<close>

definition tagged_rows :: "field list list" where
  "tagged_rows = [[S ''irp'', I 2, I 1, S ''id''], [S ''dr'', I 2, I 2]]"

definition retagged_rows :: "field list list" where
  "retagged_rows = [[S ''irp'', I 2, I 1], [S ''dr'', I 2, I 2, S ''x'']]"


text \<open>
  A decimal digit character; and the number that \<open>int(bin(value)[2:])\<close> yields: the binary
  numeral of \<open>m\<close> read as a decimal numeral.
\<close>

definition is_digit :: "char \<Rightarrow> bool" where
  "is_digit c \<longleftrightarrow> (\<exists>d<10. c = digit_char d)"

definition binary_as_decimal :: "nat \<Rightarrow> nat" where
  "binary_as_decimal m =
     foldl (\<lambda>a c. a * 10 + (if c = CHR ''1'' then 1 else 0)) 0 (bin_digits m)"


text \<open>
  \<open>add_device\<close> appends to the chain. The examples use a device with a six-bit
  instruction register, a 32-bit IDCODE register at opcode \<open>0x09\<close> and BYPASS at the
  all-ones opcode, and a walker to which two such devices were added.
\<close>

definition add_device :: "JTAGRpi \<Rightarrow> JTAGDevice \<Rightarrow> JTAGRpi" where
  "add_device s d = s\<lparr>devices := devices s @ [d]\<rparr>"

definition idcode_reg :: JTAGRegister where
  "idcode_reg = \<lparr>name = ''IDCODE'', address = 9, width = 32\<rparr>"

definition bypass_reg :: JTAGRegister where
  "bypass_reg = \<lparr>name = ''BYPASS'', address = 63, width = 1\<rparr>"

definition device6 :: JTAGDevice where
  "device6 = \<lparr>ir_len = 6, idcode = 0,
     names = [(''IDCODE'', idcode_reg), (''BYPASS'', bypass_reg)],
     addresses = [(9, idcode_reg), (63, bypass_reg)]\<rparr>"

definition chain2 :: JTAGRpi where
  "chain2 = add_device (add_device init_JTAGRpi device6) device6"


text \<open>
  The legs that \<open>access\<close> queues: the rows it builds, parsed as \<open>parse_rows\<close> parses them
  into the emptied queue. A chain of one device that has a register one bit wider than
  \<open>max_str_digits\<close> serves as an example.
\<close>

definition access_legs :: "JTAGRpi \<Rightarrow> field \<Rightarrow> int \<Rightarrow> int \<Rightarrow> bool \<Rightarrow> error + leg list" where
  "access_legs s addr data dev w =
     (case access_rows s addr data dev w of
        Inl e \<Rightarrow> Inl e
      | Inr v \<Rightarrow>
          map_sum id jtag_legs
            (parse_row_loop (s\<lparr>jtag_legs := [], cur_leg := None, jtag_results := []\<rparr>) (rows v)))"

definition wide_reg :: JTAGRegister where
  "wide_reg = \<lparr>name = ''WIDE'', address = 2, width = max_str_digits + 1\<rparr>"

definition device_wide :: JTAGDevice where
  "device_wide = \<lparr>ir_len = 6, idcode = 0,
     names = [(''WIDE'', wide_reg), (''BYPASS'', bypass_reg)],
     addresses = [(2, wide_reg), (63, bypass_reg)]\<rparr>"

definition chain_wide :: JTAGRpi where
  "chain_wide = add_device init_JTAGRpi device_wide"




section \<open>Properties of the TAP walker\<close>

subsection \<open>Clock cycles\<close>

lemma snd_phy_sync [simp]: "snd (phy_sync tgt a b s) = s\<lparr>pins := pins s @ cycle a b\<rparr>"
  by (simp add: phy_sync_def)

lemma fst_phy_sync [simp]: "fst (phy_sync tgt a b s) = tgt (pins s)"
  by (simp add: phy_sync_def)

lemma concat_replicate_comm: "concat (replicate n c) @ c = c @ concat (replicate n c)"
  by (induction n) auto

lemma funpow_cycle:
  "((\<lambda>x. x\<lparr>pins := pins x @ c\<rparr>) ^^ n) s = s\<lparr>pins := pins s @ concat (replicate n c)\<rparr>"
proof (induction n)
  case 0
  show ?case by simp
next
  case (Suc n)
  show ?case
    by (simp add: Suc concat_replicate_comm)
qed

subsection \<open>TMS reset\<close>

lemma parse_row_rs:
  "parse_row s [S ''rs'', S '' 0'', S '' 0''] =
     Inr (s\<lparr>jtag_legs := jtag_legs s @ [(RS_leg, ''0'', S ''0'')]\<rparr>)"
  by (simp add: parse_row_def py_str_def py_lower_def py_strip_def is_space_def py_int_def
      py_int_text_def has_prefix_def digit_val_def parse_value_def chains_def py_int_base_def
      max_str_digits_def)

lemma reset_fsm_run:
  assumes "state s = RUN_TEST_IDLE"
  shows "reset_fsm tgt num s =
     Some (Inr (s\<lparr>tms_reset_num := num, jtag_legs := [], cur_leg := None, jtag_results := [],
                  state := TEST_LOGIC_RESET, last_ir_val := - 1,
                  pins := pins s @ concat (replicate (nat num) (cycle False True))\<rparr>))"
  using assms
  by (simp add: reset_fsm_def parse_rows_def parse_row_rs process_command.simps jtag_next_def
      idle_def run_out_of_idle.simps run_to_idle.simps jtag_step_def step_run_test_idle_def
      funpow_cycle)

text \<open>
  C6, as amended. From Run-Test/Idle, \<open>reset_fsm\<close> with the default count 7 (the single
  row \<open>rs, 0, 0\<close>) returns; it has appended to the pin history exactly seven cycles
  \<open>phy_sync(0, 1)\<close>, each the writes TCK=0, TDI=0, TMS=1, TCK=1, TCK=0; \<open>last_ir_val\<close> is
  the sentinel \<open>-1\<close>; no leg is pending or active; and the walker is left in
  Test-Logic-Reset (not in Run-Test/Idle: nothing clocks the TAP out of reset while no
  leg is pending).
\<close>

theorem reset_fsm_seven_cycles:
  assumes "state s = RUN_TEST_IDLE"
  shows "\<exists>s'. reset_fsm tgt 7 s = Some (Inr s') \<and>
          pins s' = pins s @ concat (replicate 7 (cycle False True)) \<and>
          last_ir_val s' = - 1 \<and> state s' = TEST_LOGIC_RESET \<and>
          jtag_legs s' = [] \<and> cur_leg s' = None"
  by (simp add: reset_fsm_run [OF assms])

theorem reset_fsm_seven_cycles_witness:
  "state init_JTAGRpi = RUN_TEST_IDLE \<and>
   (\<exists>s'. reset_fsm (\<lambda>h. False) 7 init_JTAGRpi = Some (Inr s') \<and>
          pins s' = pins init_JTAGRpi @ concat (replicate 7 (cycle False True)) \<and>
          last_ir_val s' = - 1 \<and> state s' = TEST_LOGIC_RESET \<and>
          jtag_legs s' = [] \<and> cur_leg s' = None)"
proof -
  have idle: "state init_JTAGRpi = RUN_TEST_IDLE"
    by (simp add: init_JTAGRpi_def)
  show ?thesis
    using idle reset_fsm_seven_cycles [OF idle, of "\<lambda>h. False"] by simp
qed

text \<open>
  C6 as the spec words it (end state Run-Test/Idle) fails on the freshly constructed
  object: the run ends in Test-Logic-Reset.
\<close>

theorem reset_fsm_end_state_counterexample:
  "\<not> (\<exists>s'. reset_fsm (\<lambda>h. False) 7 init_JTAGRpi = Some (Inr s') \<and>
          pins s' = concat (replicate 7 (cycle False True)) \<and>
          last_ir_val s' = - 1 \<and> state s' = RUN_TEST_IDLE)"
proof -
  have "state init_JTAGRpi = RUN_TEST_IDLE"
    by (simp add: init_JTAGRpi_def)
  then show ?thesis
    by (simp add: reset_fsm_run)
qed

subsection \<open>Scan legs\<close>

lemma tdo_char_eq: "tdo_char b = [bit_char b]"
  by (simp add: tdo_char_def bit_char_def)

lemma steps_add:
  "steps tgt (m + n) s = (case steps tgt m s of Inl e \<Rightarrow> Inl e | Inr s' \<Rightarrow> steps tgt n s')"
  by (induction m arbitrary: s) (auto split: sum.splits)

lemma state_after_add:
  "steps tgt m s = Inr s' \<Longrightarrow> state_after tgt (m + n) s = state_after tgt n s'"
  by (induction m arbitrary: s) (auto split: sum.splits)

lemma state_after_steps:
  "steps tgt m s = Inr s' \<Longrightarrow> state_after tgt m s = s'"
  using state_after_add [of tgt m s s' 0] by simp

lemma last_take: "0 < m \<Longrightarrow> m \<le> length xs \<Longrightarrow> last (take m xs) = xs ! (m - 1)"
proof -
  assume m: "0 < m" "m \<le> length xs"
  then have "take m xs \<noteq> []" by auto
  then have "last (take m xs) = take m xs ! (length (take m xs) - 1)"
    by (rule last_conv_nth)
  also have "\<dots> = xs ! (m - 1)" using m by simp
  finally show ?thesis .
qed

lemma step_shift_more:
  assumes "state s = SHIFT" "cur_leg s = Some (k, bits, tag)" "k \<noteq> DRC" "k \<noteq> DRS"
    "1 < length bits"
  shows "jtag_step tgt s =
     Inr (s\<lparr>cur_leg := Some (k, butlast bits, tag),
            pins := pins s @ cycle (last bits = CHR ''1'') False,
            tdo_vect := bit_char (tgt (pins s)) # tdo_vect s\<rparr>)"
  using assms
  by (simp add: jtag_step_def step_shift_def phy_sync_def tdo_char_eq)

lemma step_shift_last:
  assumes "state s = SHIFT" "cur_leg s = Some (k, [c], tag)" "k \<noteq> DRC" "k \<noteq> DRS"
  shows "jtag_step tgt s =
     Inr (s\<lparr>cur_leg := None,
            pins := pins s @ cycle (c = CHR ''1'') True,
            tdo_vect := bit_char (tgt (pins s)) # tdo_vect s, state := EXIT1\<rparr>)"
  using assms
  by (simp add: jtag_step_def step_shift_def phy_sync_def tdo_char_eq)

lemma shifted_0:
  "state s = SHIFT \<Longrightarrow> cur_leg s = Some (k, bits, tag) \<Longrightarrow> bits \<noteq> [] \<Longrightarrow>
   shifted tgt s k bits tag 0 = s"
  by (simp add: shifted_def shift_pins_def)

lemma shifted_step:
  assumes "k \<noteq> DRC" "k \<noteq> DRS" "i < length bits"
  shows "jtag_step tgt (shifted tgt s k bits tag i) = Inr (shifted tgt s k bits tag (Suc i))"
proof (cases "Suc i < length bits")
  case True
  have l: "1 < length (take (length bits - i) bits)" using True by simp
  have la: "last (take (length bits - i) bits) = bits ! (length bits - 1 - i)"
    using True last_take [of "length bits - i" bits] by simp
  have bl: "butlast (take (length bits - i) bits) = take (length bits - Suc i) bits"
    using True by (simp add: butlast_take)
  have ne: "i \<noteq> length bits - Suc 0" using True by auto
  have "jtag_step tgt (shifted tgt s k bits tag i) =
     Inr ((shifted tgt s k bits tag i)\<lparr>cur_leg := Some (k, butlast (take (length bits - i) bits), tag),
            pins := pins (shifted tgt s k bits tag i) @ cycle (last (take (length bits - i) bits) = CHR ''1'') False,
            tdo_vect := bit_char (tgt (pins (shifted tgt s k bits tag i))) # tdo_vect (shifted tgt s k bits tag i)\<rparr>)"
    by (rule step_shift_more) (use assms True l in \<open>simp_all add: shifted_def\<close>)
  also have "\<dots> = Inr (shifted tgt s k bits tag (Suc i))"
    using True assms by (simp add: shifted_def la bl ne shift_pins_def shift_cycle_def)
  finally show ?thesis .
next
  case False
  then have i: "length bits - i = 1" "i = length bits - 1" using assms by auto
  obtain c where c: "take (length bits - i) bits = [c]" "c = bits ! 0"
    using i assms by (cases bits) auto
  have "jtag_step tgt (shifted tgt s k bits tag i) =
     Inr ((shifted tgt s k bits tag i)\<lparr>cur_leg := None,
            pins := pins (shifted tgt s k bits tag i) @ cycle (c = CHR ''1'') True,
            tdo_vect := bit_char (tgt (pins (shifted tgt s k bits tag i))) # tdo_vect (shifted tgt s k bits tag i), state := EXIT1\<rparr>)"
    by (rule step_shift_last) (use assms c in \<open>simp_all add: shifted_def\<close>)
  also have "\<dots> = Inr (shifted tgt s k bits tag (Suc i))"
    using False assms i c by (simp add: shifted_def shift_pins_def shift_cycle_def)
  finally show ?thesis .
qed

lemma steps_shifted:
  assumes "k \<noteq> DRC" "k \<noteq> DRS" "i + n \<le> length bits"
  shows "steps tgt n (shifted tgt s k bits tag i) = Inr (shifted tgt s k bits tag (i + n))"
  using assms
proof (induction n arbitrary: i)
  case 0
  show ?case by simp
next
  case (Suc n)
  then have "i < length bits" by simp
  with Suc show ?case by (simp add: shifted_step)
qed

lemma busy_steps_0: "busy_steps tgt 0 s s"
  by (simp add: busy_steps_def)

lemma busy_steps_1: "\<not> idle s \<Longrightarrow> jtag_step tgt s = Inr s' \<Longrightarrow> busy_steps tgt 1 s s'"
  by (simp add: busy_steps_def)

lemma busy_steps_add:
  assumes "busy_steps tgt m s s'" "busy_steps tgt n s' s''"
  shows "busy_steps tgt (m + n) s s''"
proof -
  have a: "steps tgt m s = Inr s'" and b: "steps tgt n s' = Inr s''"
    using assms by (simp_all add: busy_steps_def)
  have "\<not> idle (state_after tgt i s)" if "i < m + n" for i
  proof (cases "i < m")
    case True
    then show ?thesis using assms(1) by (simp add: busy_steps_def)
  next
    case False
    then have "i = m + (i - m)" "i - m < n" using that by auto
    then show ?thesis
      using state_after_add [OF a, of "i - m"] assms(2) by (simp add: busy_steps_def)
  qed
  then show ?thesis
    by (simp add: busy_steps_def steps_add a b)
qed

lemma busy_steps_Suc:
  "\<not> idle s \<Longrightarrow> jtag_step tgt s = Inr s' \<Longrightarrow> busy_steps tgt n s' s'' \<Longrightarrow>
   busy_steps tgt (Suc n) s s''"
  using busy_steps_add [OF busy_steps_1, of s tgt s' n s''] by simp

lemma run_to_idle_busy:
  "busy_steps tgt n s s' \<Longrightarrow> run_to_idle tgt s = run_to_idle tgt s'"
proof (induction n arbitrary: s)
  case 0
  then show ?case by (simp add: busy_steps_def)
next
  case (Suc n)
  from Suc.prems have ni: "\<not> idle s"
    by (auto simp: busy_steps_def)
  from Suc.prems obtain s1 where s1: "jtag_step tgt s = Inr s1" "steps tgt n s1 = Inr s'"
    by (auto simp: busy_steps_def split: sum.splits)
  have "\<not> idle (state_after tgt i s1)" if "i < n" for i
    using Suc.prems that s1 by (auto simp: busy_steps_def dest: spec [of _ "Suc i"])
  then have "busy_steps tgt n s1 s'"
    using s1 by (simp add: busy_steps_def)
  then have "run_to_idle tgt s1 = run_to_idle tgt s'" by (rule Suc.IH)
  then show ?case
    using ni s1 by (subst run_to_idle.simps) simp
qed

lemma busy_shifted:
  assumes "k \<noteq> DRC" "k \<noteq> DRS" "i + n \<le> length bits"
  shows "busy_steps tgt n (shifted tgt s k bits tag i) (shifted tgt s k bits tag (i + n))"
  using assms
proof (induction n arbitrary: i)
  case 0
  show ?case by (simp add: busy_steps_0)
next
  case (Suc n)
  then have i: "i < length bits" by simp
  have "busy_steps tgt n (shifted tgt s k bits tag (Suc i)) (shifted tgt s k bits tag (Suc i + n))"
    using Suc.IH [of "Suc i"] Suc.prems by simp
  moreover have "\<not> idle (shifted tgt s k bits tag i)"
    using i by (simp add: idle_def shifted_def)
  ultimately show ?case
    using shifted_step [OF Suc.prems(1,2) i, of tgt s tag] busy_steps_Suc by simp
qed

lemma foldl_bits:
  fixes f :: "nat \<Rightarrow> bool"
  defines "g \<equiv> (\<lambda>(a::int) c. 2 * a + (if c = CHR ''1'' then 1 else 0))"
  shows "foldl g a (map (\<lambda>j. bit_char (f j)) (rev [0..<K])) =
     a * 2 ^ K + (\<Sum>i<K. if f i then 2 ^ i else 0)"
proof (induction K arbitrary: a)
  case 0
  show ?case by simp
next
  case (Suc K)
  have "foldl g a (map (\<lambda>j. bit_char (f j)) (rev [0..<Suc K])) =
        foldl g (g a (bit_char (f K))) (map (\<lambda>j. bit_char (f j)) (rev [0..<K]))"
    by simp
  also have "\<dots> = g a (bit_char (f K)) * 2 ^ K + (\<Sum>i<K. if f i then 2 ^ i else 0)"
    by (rule Suc.IH)
  also have "g a (bit_char (f K)) = 2 * a + (if f K then 1 else 0)"
    by (simp add: g_def bit_char_def)
  finally show ?case
    by (simp add: algebra_simps)
qed

lemma int_base2_bits:
  "0 < K \<Longrightarrow> int_base2 (map (\<lambda>j. bit_char (f j)) (rev [0..<K])) =
     Inr (\<Sum>i<K. if f i then 2 ^ i else 0)"
  using foldl_bits [of 0 f K]
  by (cases K) (auto simp: int_base2_def bit_char_def)

lemma busy_to_shift:
  assumes "state s = SELECT_SCAN"
  shows "busy_steps tgt 2 s
     (s\<lparr>pins := pins s @ cycle False False @ cycle False False, tdo_vect := [], state := SHIFT\<rparr>)"
proof -
  let ?s1 = "s\<lparr>pins := pins s @ cycle False False, state := CAPTURE\<rparr>"
  let ?s2 = "s\<lparr>pins := pins s @ cycle False False @ cycle False False, tdo_vect := [], state := SHIFT\<rparr>"
  have 1: "jtag_step tgt s = Inr ?s1" using assms by (simp add: jtag_step_def)
  have 2: "jtag_step tgt ?s1 = Inr ?s2" by (simp add: jtag_step_def)
  have b1: "busy_steps tgt 1 ?s1 ?s2"
    by (rule busy_steps_1 [OF _ 2]) (simp add: idle_def)
  have "busy_steps tgt (Suc 1) s ?s2"
    by (rule busy_steps_Suc [OF _ 1 b1]) (simp add: idle_def assms)
  then show ?thesis by (simp add: numeral_2_eq_2)
qed

lemma busy_from_exit1:
  assumes "state s = EXIT1"
  shows "busy_steps tgt (if do_pause s then 3 else 1) s
     (s\<lparr>state := UPDATE, do_pause := False,
        pins := pins s @ (if do_pause s then cycle False False @ cycle False True @ cycle False True
                          else cycle False True)\<rparr>)"
proof (cases "do_pause s")
  case False
  then have eq: "s\<lparr>state := UPDATE, do_pause := False, pins := pins s @ cycle False True\<rparr> =
                 s\<lparr>pins := pins s @ cycle False True, state := UPDATE\<rparr>"
    by (cases s) simp
  have "busy_steps tgt 1 s
          (s\<lparr>state := UPDATE, do_pause := False, pins := pins s @ cycle False True\<rparr>)"
    unfolding eq
    by (rule busy_steps_1) (use assms False in \<open>simp_all add: idle_def jtag_step_def\<close>)
  then show ?thesis using False by simp
next
  case True
  let ?s1 = "s\<lparr>pins := pins s @ cycle False False, state := PAUSE, do_pause := False\<rparr>"
  let ?s2 = "?s1\<lparr>pins := pins ?s1 @ cycle False True, state := EXIT2\<rparr>"
  let ?s3 = "?s2\<lparr>pins := pins ?s2 @ cycle False True, state := UPDATE\<rparr>"
  have 1: "jtag_step tgt s = Inr ?s1" using assms True by (simp add: jtag_step_def)
  have 2: "jtag_step tgt ?s1 = Inr ?s2" by (simp add: jtag_step_def)
  have 3: "jtag_step tgt ?s2 = Inr ?s3" by (simp add: jtag_step_def)
  have b1: "busy_steps tgt 1 ?s2 ?s3"
    by (rule busy_steps_1 [OF _ 3]) (simp add: idle_def)
  have b2: "busy_steps tgt (Suc 1) ?s1 ?s3"
    by (rule busy_steps_Suc [OF _ 2 b1]) (simp add: idle_def)
  have eq3: "s\<lparr>state := UPDATE, do_pause := False,
        pins := pins s @ cycle False False @ cycle False True @ cycle False True\<rparr> = ?s3"
    by (cases s) simp
  have "busy_steps tgt (Suc (Suc 1)) s
     (s\<lparr>state := UPDATE, do_pause := False,
        pins := pins s @ cycle False False @ cycle False True @ cycle False True\<rparr>)"
    unfolding eq3
    by (rule busy_steps_Suc [OF _ 1 b2]) (simp add: idle_def assms)
  then show ?thesis using True by (simp add: numeral_3_eq_3)
qed

lemma scan_to_update:
  assumes "state s = SELECT_SCAN" "cur_leg s = Some (k, bits, tag)" "k \<noteq> DRC" "k \<noteq> DRS"
    "bits \<noteq> []"
  shows "busy_steps tgt (length bits + (if do_pause s then 5 else 3)) s (at_update tgt s bits)"
proof -
  let ?s2 = "s\<lparr>pins := pins s @ cycle False False @ cycle False False, tdo_vect := [], state := SHIFT\<rparr>"
  let ?sK = "shifted tgt ?s2 k bits tag (length bits)"
  have a: "busy_steps tgt 2 s ?s2" by (rule busy_to_shift [OF assms(1)])
  have s0: "shifted tgt ?s2 k bits tag 0 = ?s2"
    by (rule shifted_0) (use assms in simp_all)
  have b: "busy_steps tgt (length bits) ?s2 ?sK"
    using busy_shifted [OF assms(3,4), of 0 "length bits" bits tgt ?s2 tag] s0 by simp
  have c: "busy_steps tgt (if do_pause ?sK then 3 else 1) ?sK
     (?sK\<lparr>state := UPDATE, do_pause := False,
        pins := pins ?sK @ (if do_pause ?sK then cycle False False @ cycle False True @ cycle False True
                          else cycle False True)\<rparr>)"
    by (rule busy_from_exit1) (simp add: shifted_def)
  have d: "?sK\<lparr>state := UPDATE, do_pause := False,
        pins := pins ?sK @ (if do_pause ?sK then cycle False False @ cycle False True @ cycle False True
                          else cycle False True)\<rparr> = at_update tgt s bits"
    by (simp add: shifted_def at_update_def)
  have e: "do_pause ?sK = do_pause s" by (simp add: shifted_def)
  have "busy_steps tgt (2 + length bits + (if do_pause s then 3 else 1)) s (at_update tgt s bits)"
    using busy_steps_add [OF busy_steps_add [OF a b] c] d e by simp
  moreover have "2 + length bits + (if do_pause s then 3 else 1) = length bits + (if do_pause s then 5 else 3)"
    by simp
  ultimately show ?thesis by (simp only:)
qed

lemma at_update_value:
  "bits \<noteq> [] \<Longrightarrow> int_base2 (tdo_vect (at_update tgt s bits)) =
     Inr (scan_value tgt (pins s @ cycle False False @ cycle False False) bits)"
  by (simp add: at_update_def scan_value_def int_base2_bits)

lemma at_update_results: "jtag_results (at_update tgt s bits) = jtag_results s"
  by (simp add: at_update_def)

lemma update_appends:
  assumes "state s = UPDATE" "int_base2 (tdo_vect s) = Inr v"
  shows "\<exists>s'. jtag_step tgt s = Inr s' \<and> jtag_results s' = jtag_results s @ [v]"
  using assms
  by (simp add: jtag_step_def step_update_def Let_def split: list.splits prod.splits)

lemma state_after_shift:
  assumes "state s = SELECT_SCAN" "cur_leg s = Some (k, bits, tag)" "k \<noteq> DRC" "k \<noteq> DRS"
    "i \<le> length bits" "bits \<noteq> []"
  shows "state_after tgt (2 + i) s =
     shifted tgt (s\<lparr>pins := pins s @ cycle False False @ cycle False False, tdo_vect := [],
                     state := SHIFT\<rparr>) k bits tag i"
proof -
  let ?s2 = "s\<lparr>pins := pins s @ cycle False False @ cycle False False, tdo_vect := [], state := SHIFT\<rparr>"
  have a: "steps tgt 2 s = Inr ?s2"
    using busy_to_shift [OF assms(1), of tgt] by (simp add: busy_steps_def)
  have s0: "shifted tgt ?s2 k bits tag 0 = ?s2"
    by (rule shifted_0) (use assms in simp_all)
  have "steps tgt i ?s2 = Inr (shifted tgt ?s2 k bits tag i)"
    using steps_shifted [OF assms(3,4), of 0 i bits tgt ?s2 tag] assms(5) s0 by simp
  then have "state_after tgt i ?s2 = shifted tgt ?s2 k bits tag i"
    by (rule state_after_steps)
  then show ?thesis
    using state_after_add [OF a, of i] by simp
qed

text \<open>
  C1. A scan leg of kind DR, IR, IRP or IRD with \<open>K > 0\<close> bits that enters Select-Scan
  runs to completion in \<open>K + 4\<close> calls of \<open>jtag_step\<close> (\<open>K + 6\<close> with the pause). The
  call number \<open>2 + i\<close> (counting from 0) is made in state Shift and is the \<open>phy_sync\<close>
  that shifts bit \<open>i\<close>: it drives TDI with the \<open>i\<close>-th character from the right and
  raises TMS on the last bit only; the TDO value it returns is the target's level on the
  pin history at that moment. The integer appended to \<open>jtag_results\<close> at Update is the
  sum of these samples weighted \<open>2 ^ i\<close>: the first sample is the least significant bit.
\<close>

theorem tdo_ordering:
  assumes "state s = SELECT_SCAN" "cur_leg s = Some (k, bits, tag)"
    "k \<in> {DR, IR, IRP, IRD}" "bits \<noteq> []"
  shows "\<exists>s'. steps tgt (length bits + (if do_pause s then 6 else 4)) s = Inr s' \<and>
     jtag_results s' = jtag_results s @
        [(\<Sum>i<length bits. if tgt (pins (state_after tgt (2 + i) s)) then 2 ^ i else 0)] \<and>
     (\<forall>i<length bits.
        state (state_after tgt (2 + i) s) = SHIFT \<and>
        pins (state_after tgt (3 + i) s) =
          pins (state_after tgt (2 + i) s) @
            cycle (bits ! (length bits - 1 - i) = CHR ''1'') (i = length bits - 1))"
proof -
  let ?K = "length bits"
  let ?h2 = "pins s @ cycle False False @ cycle False False"
  let ?n = "?K + (if do_pause s then 5 else 3)"
  have k: "k \<noteq> DRC" "k \<noteq> DRS" using assms(3) by auto
  have "busy_steps tgt ?n s (at_update tgt s bits)"
    by (rule scan_to_update [OF assms(1,2) k assms(4)])
  then have su: "steps tgt ?n s = Inr (at_update tgt s bits)"
    by (simp add: busy_steps_def)
  have "state (at_update tgt s bits) = UPDATE" by (simp add: at_update_def)
  from update_appends [OF this at_update_value [OF assms(4)], where tgt = tgt]
  obtain s' where s': "jtag_step tgt (at_update tgt s bits) = Inr s'"
    "jtag_results s' = jtag_results (at_update tgt s bits) @ [scan_value tgt ?h2 bits]"
    by blast
  have sa: "state_after tgt (2 + i) s =
     shifted tgt (s\<lparr>pins := ?h2, tdo_vect := [], state := SHIFT\<rparr>) k bits tag i"
    if "i \<le> ?K" for i
    by (rule state_after_shift [OF assms(1,2) k that assms(4)])
  have pins_i: "pins (state_after tgt (2 + i) s) = shift_pins ?h2 bits i" if "i \<le> ?K" for i
    using sa [OF that] by (simp add: shifted_def)
  have "steps tgt (?n + 1) s =
        (case steps tgt ?n s of Inl e \<Rightarrow> Inl e | Inr x \<Rightarrow> steps tgt 1 x)"
    by (rule steps_add)
  also have "\<dots> = steps tgt 1 (at_update tgt s bits)"
    by (simp only: su sum.case)
  also have "\<dots> = Inr s'"
    using s'(1) by simp
  finally have "steps tgt (?n + 1) s = Inr s'" .
  moreover have "?n + 1 = ?K + (if do_pause s then 6 else 4)" by simp
  ultimately have 1: "steps tgt (?K + (if do_pause s then 6 else 4)) s = Inr s'"
    by (simp only:)
  have pins_lt: "pins (state_after tgt (2 + i) s) = shift_pins ?h2 bits i" if "i < ?K" for i
    using pins_i [of i] that by (simp only: less_imp_le)
  have "scan_value tgt ?h2 bits =
        (\<Sum>i<?K. if tgt (pins (state_after tgt (2 + i) s)) then 2 ^ i else 0)"
    unfolding scan_value_def
    by (rule sum.cong [OF refl]) (simp only: lessThan_iff pins_lt)
  then have 2: "jtag_results s' = jtag_results s @
        [(\<Sum>i<?K. if tgt (pins (state_after tgt (2 + i) s)) then 2 ^ i else 0)]"
    using s'(2) by (simp only: at_update_results)
  have 3: "state (state_after tgt (2 + i) s) = SHIFT \<and>
        pins (state_after tgt (3 + i) s) =
          pins (state_after tgt (2 + i) s) @
            cycle (bits ! (?K - 1 - i) = CHR ''1'') (i = ?K - 1)" if "i < ?K" for i
  proof -
    have e: "3 + i = 2 + Suc i" by simp
    have "Suc i \<le> ?K" using that by simp
    then have "pins (state_after tgt (3 + i) s) = shift_pins ?h2 bits (Suc i)"
      unfolding e by (rule pins_i)
    also have "\<dots> = shift_pins ?h2 bits i @ shift_cycle bits i"
      by (simp add: shift_pins_def)
    finally have p: "pins (state_after tgt (3 + i) s) =
        pins (state_after tgt (2 + i) s) @ shift_cycle bits i"
      by (simp only: pins_lt [OF that])
    have "i \<le> ?K" using that by simp
    then have "state_after tgt (2 + i) s =
       shifted tgt (s\<lparr>pins := ?h2, tdo_vect := [], state := SHIFT\<rparr>) k bits tag i"
      by (rule sa)
    then have "state (state_after tgt (2 + i) s) =
       state (shifted tgt (s\<lparr>pins := ?h2, tdo_vect := [], state := SHIFT\<rparr>) k bits tag i)"
      by (rule arg_cong)
    also have "\<dots> = SHIFT" using that by (simp add: shifted_def)
    finally show ?thesis using p by (simp only: shift_cycle_def simp_thms)
  qed
  show ?thesis using 1 2 3 by blast
qed

theorem tdo_ordering_witness:
  "state scan_start = SELECT_SCAN \<and> cur_leg scan_start = Some (DR, ''110'', S '' '') \<and>
   DR \<in> {DR, IR, IRP, IRD} \<and> ''110'' \<noteq> [] \<and>
   (\<exists>s'. steps toggling 7 scan_start = Inr s' \<and> jtag_results s' = [5])"
proof -
  have h: "state scan_start = SELECT_SCAN" "cur_leg scan_start = Some (DR, ''110'', S '' '')"
    "DR \<in> {DR, IR, IRP, IRD}" "''110'' \<noteq> []"
    by (simp_all add: scan_start_def init_JTAGRpi_def)
  from tdo_ordering [OF h, of toggling] obtain s' where
    a: "steps toggling (length ''110'' + (if do_pause scan_start then 6 else 4)) scan_start = Inr s'"
    and b: "jtag_results s' = jtag_results scan_start @
        [(\<Sum>i<length ''110''. if toggling (pins (state_after toggling (2 + i) scan_start)) then 2 ^ i else 0)]"
    by blast
  have n: "length ''110'' + (if do_pause scan_start then 6 else 4) = 7"
    by code_simp
  have v: "jtag_results scan_start @
        [(\<Sum>i<length ''110''. if toggling (pins (state_after toggling (2 + i) scan_start)) then 2 ^ i else 0)] = [5]"
    by code_simp
  show ?thesis
    using h a b unfolding n v by blast
qed

subsection \<open>Single calls of \<open>jtag_step\<close>\<close>

lemma step_idle_pop:
  assumes "state s = RUN_TEST_IDLE" "cur_leg s = None" "jtag_legs s = l # ls"
  shows "jtag_step tgt s = Inr (s\<lparr>cur_leg := Some l, jtag_legs := ls\<rparr>)"
proof -
  have "s\<lparr>cur_leg := Some l, jtag_legs := ls, state := RUN_TEST_IDLE\<rparr> =
        s\<lparr>cur_leg := Some l, jtag_legs := ls\<rparr>"
    using assms(1) by (cases s) simp
  then show ?thesis
    using assms by (simp add: jtag_step_def step_run_test_idle_def)
qed

lemma step_idle_irp:
  assumes "state s = RUN_TEST_IDLE" "cur_leg s = Some (IRP, bits, tag)"
  shows "jtag_step tgt s =
     Inr (s\<lparr>pins := pins s @ cycle False True @ cycle False True, do_pause := True,
            state := SELECT_SCAN\<rparr>)"
  using assms by (simp add: jtag_step_def step_run_test_idle_def)

lemma step_idle_ir:
  assumes "state s = RUN_TEST_IDLE" "cur_leg s = Some (k, bits, tag)" "k = IR \<or> k = IRD"
  shows "jtag_step tgt s =
     Inr (s\<lparr>pins := pins s @ cycle False True @ cycle False True, do_pause := False,
            state := SELECT_SCAN\<rparr>)"
  using assms by (auto simp add: jtag_step_def step_run_test_idle_def)

lemma step_idle_dr:
  assumes "state s = RUN_TEST_IDLE" "cur_leg s = Some (DR, bits, tag)"
  shows "jtag_step tgt s =
     Inr (s\<lparr>pins := pins s @ cycle False True, readout := False, state := SELECT_SCAN\<rparr>)"
  using assms by (simp add: jtag_step_def step_run_test_idle_def)

lemma step_update_dr:
  assumes "state s = UPDATE" "int_base2 (tdo_vect s) = Inr v" "jtag_legs s = (DR, bits, tag) # ls"
  shows "jtag_step tgt s =
     Inr (s\<lparr>jtag_results := jtag_results s @ [v], tdo_vect := [],
            readdata := (if readout s then v else readdata s), readout := False,
            cur_leg := Some (DR, bits, tag), jtag_legs := ls,
            pins := pins s @ cycle False True, state := SELECT_SCAN\<rparr>)"
  using assms by (cases s) (simp add: jtag_step_def step_update_def)

lemma step_update_last:
  assumes "state s = UPDATE" "int_base2 (tdo_vect s) = Inr v" "jtag_legs s = []"
  shows "jtag_step tgt s =
     Inr (s\<lparr>jtag_results := jtag_results s @ [v], tdo_vect := [],
            readdata := (if readout s then v else readdata s), readout := False,
            pins := pins s @ cycle False False, state := RUN_TEST_IDLE\<rparr>)"
  using assms by (cases s) (simp add: jtag_step_def step_update_def)

lemma busy_steps_states:
  "busy_steps tgt n s s' \<Longrightarrow> i < n \<Longrightarrow> \<not> idle (state_after tgt i s)"
  by (simp add: busy_steps_def)

lemma busy_steps_end:
  "busy_steps tgt n s s' \<Longrightarrow> state_after tgt n s = s'"
  by (simp add: busy_steps_def state_after_steps)

text \<open>
  C7, as amended. With no active leg in Run-Test/Idle and the queue [IRP leg, DR leg], the
  IRP leg (of \<open>K > 0\<close> bits) reaches Update after \<open>K + 7\<close> calls of \<open>jtag_step\<close>. The
  Update call then issues exactly one cycle \<open>phy_sync(0, 1)\<close>, makes the DR leg the active
  leg and enters Select-Scan. (The additional wait-state-bypass cycle belongs to the case
  where the head of the queue is an IRP or IRD leg; with a DR leg at the head it is not
  issued.) From the moment the IRP leg leaves Run-Test/Idle until the DR leg is in
  Select-Scan the walker is never in Run-Test/Idle.
\<close>

theorem irp_dr_shortcut:
  assumes "state s = RUN_TEST_IDLE" "cur_leg s = None"
    "jtag_legs s = [(IRP, b1, t1), (DR, b2, t2)]" "b1 \<noteq> []"
  shows "\<exists>su sd. steps tgt (length b1 + 7) s = Inr su \<and> state su = UPDATE \<and>
     jtag_legs su = [(DR, b2, t2)] \<and>
     jtag_step tgt su = Inr sd \<and> state sd = SELECT_SCAN \<and>
     cur_leg sd = Some (DR, b2, t2) \<and> jtag_legs sd = [] \<and>
     pins sd = pins su @ cycle False True \<and>
     (\<forall>i. 2 \<le> i \<and> i \<le> length b1 + 8 \<longrightarrow> state (state_after tgt i s) \<noteq> RUN_TEST_IDLE)"
proof -
  let ?K = "length b1"
  let ?s1 = "s\<lparr>cur_leg := Some (IRP, b1, t1), jtag_legs := [(DR, b2, t2)]\<rparr>"
  let ?s2 = "?s1\<lparr>pins := pins ?s1 @ cycle False True @ cycle False True, do_pause := True,
                  state := SELECT_SCAN\<rparr>"
  let ?su = "at_update tgt ?s2 b1"
  let ?sd = "?su\<lparr>jtag_results := jtag_results ?su @
                    [scan_value tgt (pins ?s2 @ cycle False False @ cycle False False) b1],
                  tdo_vect := [],
                  readdata := (if readout ?su
                     then scan_value tgt (pins ?s2 @ cycle False False @ cycle False False) b1
                     else readdata ?su),
                  readout := False,
                  cur_leg := Some (DR, b2, t2), jtag_legs := [],
                  pins := pins ?su @ cycle False True, state := SELECT_SCAN\<rparr>"
  have 1: "jtag_step tgt s = Inr ?s1"
    by (rule step_idle_pop [OF assms(1,2,3)])
  have 2: "jtag_step tgt ?s1 = Inr ?s2"
    by (rule step_idle_irp) (simp_all add: assms)
  have two: "steps tgt 2 s = Inr ?s2"
    using 1 2 by (simp add: numeral_2_eq_2)
  have busy: "busy_steps tgt (?K + (if do_pause ?s2 then 5 else 3)) ?s2 ?su"
    by (rule scan_to_update [where k = IRP and tag = t1]) (simp_all add: assms)
  have dp: "(if do_pause ?s2 then 5 else 3) = (5::nat)" by simp
  have busy5: "busy_steps tgt (?K + 5) ?s2 ?su"
    using busy unfolding dp .
  have "steps tgt (2 + (?K + 5)) s = (case steps tgt 2 s of Inl e \<Rightarrow> Inl e | Inr x \<Rightarrow> steps tgt (?K + 5) x)"
    by (rule steps_add)
  also have "\<dots> = Inr ?su"
    using busy5 by (simp only: two sum.case busy_steps_def)
  finally have su: "steps tgt (?K + 7) s = Inr ?su"
    by (simp add: add.commute)
  have st: "state ?su = UPDATE" and legs: "jtag_legs ?su = [(DR, b2, t2)]"
    by (simp_all add: at_update_def assms)
  have val: "int_base2 (tdo_vect ?su) =
      Inr (scan_value tgt (pins ?s2 @ cycle False False @ cycle False False) b1)"
    by (rule at_update_value [OF assms(4)])
  have sd: "jtag_step tgt ?su = Inr ?sd"
    by (rule step_update_dr [OF st val legs])
  have sdp: "state ?sd = SELECT_SCAN" "cur_leg ?sd = Some (DR, b2, t2)" "jtag_legs ?sd = []"
    "pins ?sd = pins ?su @ cycle False True"
    by simp_all
  have nonidle: "state (state_after tgt i s) \<noteq> RUN_TEST_IDLE" if i2: "2 \<le> i" and i8: "i \<le> ?K + 8" for i
  proof -
    consider "i < ?K + 7" | "i = ?K + 7" | "i = ?K + 8" using i8 by linarith
    then show ?thesis
    proof cases
      case 1
      then have j: "2 + (i - 2) = i" "i - 2 < ?K + 5" using i2 by auto
      have "state_after tgt (2 + (i - 2)) s = state_after tgt (i - 2) ?s2"
        by (rule state_after_add [OF two])
      then have e: "state_after tgt i s = state_after tgt (i - 2) ?s2"
        unfolding j(1) .
      have "\<not> idle (state_after tgt (i - 2) ?s2)"
        by (rule busy_steps_states [OF busy5 j(2)])
      then show ?thesis unfolding e by (simp only: idle_def de_Morgan_disj simp_thms)
    next
      case 2
      have "state_after tgt (?K + 7) s = ?su"
        by (rule state_after_steps [OF su])
      then show ?thesis using 2 st by simp
    next
      case 3
      have "steps tgt (?K + 7 + 1) s =
          (case steps tgt (?K + 7) s of Inl e \<Rightarrow> Inl e | Inr x \<Rightarrow> steps tgt 1 x)"
        by (rule steps_add)
      also have "\<dots> = steps tgt 1 ?su" by (simp only: su sum.case)
      also have "\<dots> = Inr ?sd" using sd by simp
      finally have "state_after tgt (?K + 7 + 1) s = ?sd"
        by (rule state_after_steps)
      moreover have "?K + 7 + 1 = i" using 3 by simp
      ultimately have "state_after tgt i s = ?sd" by simp
      then show ?thesis using sdp(1) by simp
    qed
  qed
  show ?thesis
    using su st legs sd sdp nonidle by blast
qed

theorem irp_dr_shortcut_witness:
  "state irp_dr_start = RUN_TEST_IDLE \<and> cur_leg irp_dr_start = None \<and>
   jtag_legs irp_dr_start = [(IRP, ''1'', S '' ''), (DR, ''0'', S '' '')] \<and> ''1'' \<noteq> [] \<and>
   (\<exists>su sd. steps toggling (length ''1'' + 7) irp_dr_start = Inr su \<and> state su = UPDATE \<and>
     jtag_legs su = [(DR, ''0'', S '' '')] \<and>
     jtag_step toggling su = Inr sd \<and> state sd = SELECT_SCAN \<and>
     cur_leg sd = Some (DR, ''0'', S '' '') \<and> jtag_legs sd = [] \<and>
     pins sd = pins su @ cycle False True \<and>
     (\<forall>i. 2 \<le> i \<and> i \<le> length ''1'' + 8 \<longrightarrow>
        state (state_after toggling i irp_dr_start) \<noteq> RUN_TEST_IDLE))"
proof -
  have h: "state irp_dr_start = RUN_TEST_IDLE" "cur_leg irp_dr_start = None"
    "jtag_legs irp_dr_start = [(IRP, ''1'', S '' ''), (DR, ''0'', S '' '')]" "''1'' \<noteq> []"
    by (simp_all add: irp_dr_start_def init_JTAGRpi_def)
  show ?thesis
    using h irp_dr_shortcut [OF h, of toggling] by blast
qed

text \<open>
  C7 as the spec words it has the Update call of the IRP leg issue the extra bypass cycle
  and then the cycle into Select-Scan, two cycles with TMS=1. On the queue
  [IRP \<open>1\<close>, DR \<open>0\<close>] the Update call issues one.
\<close>

theorem irp_dr_bypass_cycle_counterexample:
  "\<not> (\<exists>su sd. steps toggling 8 irp_dr_start = Inr su \<and> state su = UPDATE \<and>
         jtag_step toggling su = Inr sd \<and> state sd = SELECT_SCAN \<and>
         pins sd = pins su @ cycle False True @ cycle False True)"
proof
  assume "\<exists>su sd. steps toggling 8 irp_dr_start = Inr su \<and> state su = UPDATE \<and>
         jtag_step toggling su = Inr sd \<and> state sd = SELECT_SCAN \<and>
         pins sd = pins su @ cycle False True @ cycle False True"
  then obtain su sd where su: "steps toggling 8 irp_dr_start = Inr su"
    and sd: "jtag_step toggling su = Inr sd"
    and p: "pins sd = pins su @ cycle False True @ cycle False True"
    by blast
  have a: "steps toggling 8 irp_dr_start = Inr (state_after toggling 8 irp_dr_start)"
    by code_simp
  have b: "jtag_step toggling (state_after toggling 8 irp_dr_start) =
           Inr (state_after toggling 9 irp_dr_start)"
    by code_simp
  have c: "pins (state_after toggling 9 irp_dr_start) \<noteq>
           pins (state_after toggling 8 irp_dr_start) @ cycle False True @ cycle False True"
    by code_simp
  from su a have "su = state_after toggling 8 irp_dr_start" by (simp only: sum.inject)
  with sd b have "sd = state_after toggling 9 irp_dr_start" by (simp only: sum.inject)
  with p c \<open>su = state_after toggling 8 irp_dr_start\<close> show False by (simp only:)
qed

subsection \<open>A reset followed by exactly one more leg\<close>

text \<open>
  In Test-Logic-Reset with an active leg and nothing pending, \<open>jtag_step\<close> does nothing,
  and the first loop of \<open>jtag_next\<close> never ends.
\<close>

lemma stuck_in_reset:
  assumes "run_out_of_idle tgt s = Some r"
  shows "\<not> (state s = TEST_LOGIC_RESET \<and> jtag_legs s = [] \<and> cur_leg s \<noteq> None)"
proof (rule run_out_of_idle.raw_induct
    [where P = "\<lambda>tgt s r. \<not> (state s = TEST_LOGIC_RESET \<and> jtag_legs s = [] \<and> cur_leg s \<noteq> None)",
      OF _ assms])
  fix f :: "target \<Rightarrow> JTAGRpi \<Rightarrow> (error + JTAGRpi) option" and tgt s r
  assume IH: "\<And>t s y. f t s = Some y \<Longrightarrow>
                \<not> (state s = TEST_LOGIC_RESET \<and> jtag_legs s = [] \<and> cur_leg s \<noteq> None)"
    and eq: "(if idle s
               then case jtag_step tgt s of
                      Inl e \<Rightarrow> Some (Inl e)
                    | Inr s' \<Rightarrow> if cur_leg s' = None then Some (Inr s') else f tgt s'
               else Some (Inr s)) = Some r"
  show "\<not> (state s = TEST_LOGIC_RESET \<and> jtag_legs s = [] \<and> cur_leg s \<noteq> None)"
  proof
    assume st: "state s = TEST_LOGIC_RESET \<and> jtag_legs s = [] \<and> cur_leg s \<noteq> None"
    then have "jtag_step tgt s = Inr s" by (simp add: jtag_step_def)
    with eq st have "f tgt s = Some r" by (simp add: idle_def)
    from IH [OF this] st show False by simp
  qed
qed

lemma run_out_of_idle_stuck:
  "state s = TEST_LOGIC_RESET \<Longrightarrow> jtag_legs s = [] \<Longrightarrow> cur_leg s \<noteq> None \<Longrightarrow>
   run_out_of_idle tgt s = None"
  using stuck_in_reset [of tgt s] by (cases "run_out_of_idle tgt s") auto

lemma step_idle_rs:
  assumes "state s = RUN_TEST_IDLE" "cur_leg s = Some (RS_leg, bits, tag)" "jtag_legs s = l # ls"
  shows "jtag_step tgt s =
     Inr (s\<lparr>pins := pins s @ concat (replicate (nat (tms_reset_num s)) (cycle False True)),
            state := TEST_LOGIC_RESET, last_ir_val := - 1, cur_leg := Some l, jtag_legs := ls\<rparr>)"
  using assms by (simp add: jtag_step_def step_run_test_idle_def funpow_cycle)

lemma process_command_reset_then_one:
  assumes "state s = RUN_TEST_IDLE" "cur_leg s = None" "jtag_legs s = [(RS_leg, bits, tag), l]"
  shows "process_command tgt s = None"
proof -
  let ?s1 = "s\<lparr>cur_leg := Some (RS_leg, bits, tag), jtag_legs := [l]\<rparr>"
  let ?s2 = "?s1\<lparr>pins := pins ?s1 @ concat (replicate (nat (tms_reset_num ?s1)) (cycle False True)),
            state := TEST_LOGIC_RESET, last_ir_val := - 1, cur_leg := Some l, jtag_legs := []\<rparr>"
  have 1: "jtag_step tgt s = Inr ?s1" by (rule step_idle_pop [OF assms])
  have 2: "jtag_step tgt ?s1 = Inr ?s2" by (rule step_idle_rs) (simp_all add: assms)
  have 3: "run_out_of_idle tgt ?s2 = None" by (rule run_out_of_idle_stuck) simp_all
  have c2: "cur_leg ?s2 \<noteq> None" by simp
  have i1: "idle ?s1" by (simp add: idle_def assms)
  have "run_out_of_idle tgt ?s1 = None"
    by (subst run_out_of_idle.simps) (simp only: i1 2 3 c2 if_True if_False sum.case)
  then have "run_out_of_idle tgt s = None"
    by (subst run_out_of_idle.simps) (simp add: idle_def assms 1)
  then have "jtag_next tgt s = None"
    by (simp add: jtag_next_def idle_def assms)
  then show ?thesis
    by (subst process_command.simps) (simp add: assms)
qed

lemma parse_two_rows:
  "parse_row_loop (init_JTAGRpi\<lparr>jtag_legs := [], cur_leg := None, jtag_results := []\<rparr>)
       [[S ''rs'', I 0, I 0], [S ''dr'', I 1, I 0]] =
     Inr (init_JTAGRpi\<lparr>jtag_legs := [(RS_leg, ''0'', S ''0''), (DR, ''0'', S '' '')]\<rparr>)"
  by code_simp

text \<open>
  C9 does not hold of the code: on a freshly constructed walker, whatever the target,
  \<open>parse_rows\<close> of the two rows \<open>rs, 0, 0\<close> and \<open>dr, 1, 0\<close> does not return. The reset
  leg pops the DR leg and enters Test-Logic-Reset; that state is only left while legs are
  pending, and none is.
\<close>

theorem reset_then_leg_hangs:
  "parse_rows tgt init_JTAGRpi [[S ''rs'', I 0, I 0], [S ''dr'', I 1, I 0]] = None"
proof -
  have "process_command tgt
          (init_JTAGRpi\<lparr>jtag_legs := [(RS_leg, ''0'', S ''0''), (DR, ''0'', S '' '')]\<rparr>) = None"
    by (rule process_command_reset_then_one) (simp_all add: init_JTAGRpi_def)
  then show ?thesis
    by (simp only: parse_rows_def parse_two_rows sum.case)
qed

subsection \<open>Tags\<close>

lemma untag_simps [simp]:
  "state (untag s) = state s" "pins (untag s) = pins s" "jtag_results (untag s) = jtag_results s"
  "jtag_legs (untag s) = map untag_leg (jtag_legs s)"
  "cur_leg (untag s) = map_option untag_leg (cur_leg s)"
  "do_pause (untag s) = do_pause s" "readout (untag s) = readout s"
  "tdo_vect (untag s) = tdo_vect s" "tms_reset_num (untag s) = tms_reset_num s"
  "idle (untag s) = idle s"
  by (simp_all add: untag_def idle_def)

lemma untag_leg_simp [simp]: "untag_leg (k, b, t) = (k, b, S [])"
  by (simp add: untag_leg_def)

lemma untag_funpow:
  "untag (((\<lambda>x. x\<lparr>pins := pins x @ c\<rparr>) ^^ n) s) = ((\<lambda>x. x\<lparr>pins := pins x @ c\<rparr>) ^^ n) (untag s)"
  by (simp add: funpow_cycle untag_def)

lemma idle_untag:
  "step_run_test_idle tgt (untag s) = map_sum id untag (step_run_test_idle tgt s)"
  by (cases "cur_leg s"; cases "jtag_legs s")
    (auto simp: step_run_test_idle_def untag_def funpow_cycle Let_def)

lemma shift_untag:
  "step_shift tgt (untag s) = map_sum id untag (step_shift tgt s)"
  by (cases "cur_leg s")
    (auto simp: step_shift_def untag_def phy_sync_def Let_def split: list.splits)

lemma update_untag:
  "step_update tgt (untag s) = map_sum id untag (step_update tgt s)"
  by (cases "jtag_legs s")
    (auto simp: step_update_def untag_def Let_def split: sum.splits)

lemma step_untag:
  "jtag_step tgt (untag s) = map_sum id untag (jtag_step tgt s)"
proof (cases "state s")
  case RUN_TEST_IDLE
  then show ?thesis by (simp add: jtag_step_def idle_untag)
next
  case SHIFT
  then show ?thesis by (simp add: jtag_step_def shift_untag)
next
  case UPDATE
  then show ?thesis by (simp add: jtag_step_def update_untag)
qed (auto simp: jtag_step_def untag_def)

lemma cur_leg_untag_None [simp]: "map_option untag_leg c = None \<longleftrightarrow> c = None"
  by (cases c) simp_all

lemma run_out_of_idle_untag_Some:
  assumes "run_out_of_idle tgt s = Some r"
  shows "run_out_of_idle tgt (untag s) = Some (map_sum id untag r)"
proof (rule run_out_of_idle.raw_induct
    [where P = "\<lambda>tgt s r. run_out_of_idle tgt (untag s) = Some (map_sum id untag r)", OF _ assms])
  fix f :: "target \<Rightarrow> JTAGRpi \<Rightarrow> (error + JTAGRpi) option" and tgt s r
  assume IH: "\<And>t s y. f t s = Some y \<Longrightarrow> run_out_of_idle t (untag s) = Some (map_sum id untag y)"
    and eq: "(if idle s
               then case jtag_step tgt s of
                      Inl e \<Rightarrow> Some (Inl e)
                    | Inr s' \<Rightarrow> if cur_leg s' = None then Some (Inr s') else f tgt s'
               else Some (Inr s)) = Some r"
  show "run_out_of_idle tgt (untag s) = Some (map_sum id untag r)"
  proof (cases "idle s")
    case False
    with eq show ?thesis by (subst run_out_of_idle.simps) auto
  next
    case True
    show ?thesis
    proof (cases "jtag_step tgt s")
      case (Inl e)
      with eq True show ?thesis
        by (subst run_out_of_idle.simps) (auto simp: step_untag)
    next
      case (Inr s')
      show ?thesis
      proof (cases "cur_leg s' = None")
        case True
        with eq Inr \<open>idle s\<close> show ?thesis
          by (subst run_out_of_idle.simps) (auto simp: step_untag)
      next
        case False
        with eq Inr \<open>idle s\<close> have "f tgt s' = Some r" by simp
        from IH [OF this] False Inr \<open>idle s\<close> show ?thesis
          by (subst run_out_of_idle.simps) (auto simp: step_untag)
      qed
    qed
  qed
qed

lemma run_out_of_idle_untag_back:
  assumes "run_out_of_idle tgt u = Some r'"
  shows "\<forall>s. u = untag s \<longrightarrow> (\<exists>r. run_out_of_idle tgt s = Some r)"
proof (rule run_out_of_idle.raw_induct
    [where P = "\<lambda>tgt u r'. \<forall>s. u = untag s \<longrightarrow> (\<exists>r. run_out_of_idle tgt s = Some r)", OF _ assms])
  fix f :: "target \<Rightarrow> JTAGRpi \<Rightarrow> (error + JTAGRpi) option" and tgt u r'
  assume IH: "\<And>t u y. f t u = Some y \<Longrightarrow> \<forall>s. u = untag s \<longrightarrow> (\<exists>r. run_out_of_idle t s = Some r)"
    and eq: "(if idle u
               then case jtag_step tgt u of
                      Inl e \<Rightarrow> Some (Inl e)
                    | Inr s' \<Rightarrow> if cur_leg s' = None then Some (Inr s') else f tgt s'
               else Some (Inr u)) = Some r'"
  show "\<forall>s. u = untag s \<longrightarrow> (\<exists>r. run_out_of_idle tgt s = Some r)"
  proof (intro allI impI)
    fix s assume u: "u = untag s"
    show "\<exists>r. run_out_of_idle tgt s = Some r"
    proof (cases "idle s")
      case False
      then show ?thesis by (subst run_out_of_idle.simps) simp
    next
      case True
      show ?thesis
      proof (cases "jtag_step tgt s")
        case (Inl e)
        with True show ?thesis by (subst run_out_of_idle.simps) simp
      next
        case (Inr s')
        show ?thesis
        proof (cases "cur_leg s' = None")
          case True
          with Inr \<open>idle s\<close> show ?thesis by (subst run_out_of_idle.simps) simp
        next
          case False
          with eq u Inr \<open>idle s\<close> have "f tgt (untag s') = Some r'"
            by (simp add: step_untag)
          from IH [OF this] have "\<exists>r. run_out_of_idle tgt s' = Some r" by blast
          with False Inr \<open>idle s\<close> show ?thesis by (subst run_out_of_idle.simps) simp
        qed
      qed
    qed
  qed
qed

lemma run_out_of_idle_untag:
  "run_out_of_idle tgt (untag s) = map_option (map_sum id untag) (run_out_of_idle tgt s)"
proof (cases "run_out_of_idle tgt s")
  case (Some r)
  then show ?thesis by (simp add: run_out_of_idle_untag_Some)
next
  case None
  have "run_out_of_idle tgt (untag s) = None"
  proof (cases "run_out_of_idle tgt (untag s)")
    case (Some r')
    from run_out_of_idle_untag_back [OF this] None show ?thesis by auto
  qed simp
  with None show ?thesis by simp
qed

lemma run_to_idle_untag_Some:
  assumes "run_to_idle tgt s = Some r"
  shows "run_to_idle tgt (untag s) = Some (map_sum id untag r)"
proof (rule run_to_idle.raw_induct
    [where P = "\<lambda>tgt s r. run_to_idle tgt (untag s) = Some (map_sum id untag r)", OF _ assms])
  fix f :: "target \<Rightarrow> JTAGRpi \<Rightarrow> (error + JTAGRpi) option" and tgt s r
  assume IH: "\<And>t s y. f t s = Some y \<Longrightarrow> run_to_idle t (untag s) = Some (map_sum id untag y)"
    and eq: "(if \<not> idle s
               then case jtag_step tgt s of Inl e \<Rightarrow> Some (Inl e) | Inr s' \<Rightarrow> f tgt s'
               else Some (Inr s)) = Some r"
  show "run_to_idle tgt (untag s) = Some (map_sum id untag r)"
  proof (cases "idle s")
    case True
    with eq show ?thesis by (subst run_to_idle.simps) auto
  next
    case False
    show ?thesis
    proof (cases "jtag_step tgt s")
      case (Inl e)
      with eq False show ?thesis
        by (subst run_to_idle.simps) (auto simp: step_untag)
    next
      case (Inr s')
      with eq False have "f tgt s' = Some r" by simp
      from IH [OF this] False Inr show ?thesis
        by (subst run_to_idle.simps) (auto simp: step_untag)
    qed
  qed
qed

lemma run_to_idle_untag_back:
  assumes "run_to_idle tgt u = Some r'"
  shows "\<forall>s. u = untag s \<longrightarrow> (\<exists>r. run_to_idle tgt s = Some r)"
proof (rule run_to_idle.raw_induct
    [where P = "\<lambda>tgt u r'. \<forall>s. u = untag s \<longrightarrow> (\<exists>r. run_to_idle tgt s = Some r)", OF _ assms])
  fix f :: "target \<Rightarrow> JTAGRpi \<Rightarrow> (error + JTAGRpi) option" and tgt u r'
  assume IH: "\<And>t u y. f t u = Some y \<Longrightarrow> \<forall>s. u = untag s \<longrightarrow> (\<exists>r. run_to_idle t s = Some r)"
    and eq: "(if \<not> idle u
               then case jtag_step tgt u of Inl e \<Rightarrow> Some (Inl e) | Inr s' \<Rightarrow> f tgt s'
               else Some (Inr u)) = Some r'"
  show "\<forall>s. u = untag s \<longrightarrow> (\<exists>r. run_to_idle tgt s = Some r)"
  proof (intro allI impI)
    fix s assume u: "u = untag s"
    show "\<exists>r. run_to_idle tgt s = Some r"
    proof (cases "idle s")
      case True
      then show ?thesis by (subst run_to_idle.simps) simp
    next
      case False
      show ?thesis
      proof (cases "jtag_step tgt s")
        case (Inl e)
        with False show ?thesis by (subst run_to_idle.simps) simp
      next
        case (Inr s')
        with eq u False have "f tgt (untag s') = Some r'"
          by (simp add: step_untag)
        from IH [OF this] have "\<exists>r. run_to_idle tgt s' = Some r" by blast
        with False Inr show ?thesis by (subst run_to_idle.simps) simp
      qed
    qed
  qed
qed

lemma run_to_idle_untag:
  "run_to_idle tgt (untag s) = map_option (map_sum id untag) (run_to_idle tgt s)"
proof (cases "run_to_idle tgt s")
  case (Some r)
  then show ?thesis by (simp add: run_to_idle_untag_Some)
next
  case None
  have "run_to_idle tgt (untag s) = None"
  proof (cases "run_to_idle tgt (untag s)")
    case (Some r')
    from run_to_idle_untag_back [OF this] None show ?thesis by auto
  qed simp
  with None show ?thesis by simp
qed

lemma jtag_next_untag:
  "jtag_next tgt (untag s) = map_option (map_sum id untag) (jtag_next tgt s)"
  by (auto simp: jtag_next_def run_out_of_idle_untag run_to_idle_untag step_untag
      split: option.splits sum.splits)

lemma process_command_untag_Some:
  assumes "process_command tgt s = Some r"
  shows "process_command tgt (untag s) = Some (map_sum id untag r)"
proof (rule process_command.raw_induct
    [where P = "\<lambda>tgt s r. process_command tgt (untag s) = Some (map_sum id untag r)", OF _ assms])
  fix f :: "target \<Rightarrow> JTAGRpi \<Rightarrow> (error + JTAGRpi) option" and tgt s r
  assume IH: "\<And>t s y. f t s = Some y \<Longrightarrow> process_command t (untag s) = Some (map_sum id untag y)"
    and eq: "(if jtag_legs s \<noteq> []
               then case jtag_next tgt s of
                      None \<Rightarrow> None
                    | Some (Inl e) \<Rightarrow> Some (Inl e)
                    | Some (Inr s') \<Rightarrow> f tgt s'
               else Some (Inr s)) = Some r"
  show "process_command tgt (untag s) = Some (map_sum id untag r)"
  proof (cases "jtag_legs s = []")
    case True
    with eq show ?thesis by (subst process_command.simps) auto
  next
    case False
    from eq False obtain x where x: "jtag_next tgt s = Some x"
      by (cases "jtag_next tgt s") auto
    show ?thesis
    proof (cases x)
      case (Inl e)
      with eq False x show ?thesis
        by (subst process_command.simps) (auto simp: jtag_next_untag)
    next
      case (Inr s')
      with eq False x have "f tgt s' = Some r" by simp
      from IH [OF this] False x Inr show ?thesis
        by (subst process_command.simps) (auto simp: jtag_next_untag)
    qed
  qed
qed

lemma process_command_untag_back:
  assumes "process_command tgt u = Some r'"
  shows "\<forall>s. u = untag s \<longrightarrow> (\<exists>r. process_command tgt s = Some r)"
proof (rule process_command.raw_induct
    [where P = "\<lambda>tgt u r'. \<forall>s. u = untag s \<longrightarrow> (\<exists>r. process_command tgt s = Some r)", OF _ assms])
  fix f :: "target \<Rightarrow> JTAGRpi \<Rightarrow> (error + JTAGRpi) option" and tgt u r'
  assume IH: "\<And>t u y. f t u = Some y \<Longrightarrow> \<forall>s. u = untag s \<longrightarrow> (\<exists>r. process_command t s = Some r)"
    and eq: "(if jtag_legs u \<noteq> []
               then case jtag_next tgt u of
                      None \<Rightarrow> None
                    | Some (Inl e) \<Rightarrow> Some (Inl e)
                    | Some (Inr s') \<Rightarrow> f tgt s'
               else Some (Inr u)) = Some r'"
  show "\<forall>s. u = untag s \<longrightarrow> (\<exists>r. process_command tgt s = Some r)"
  proof (intro allI impI)
    fix s assume u: "u = untag s"
    show "\<exists>r. process_command tgt s = Some r"
    proof (cases "jtag_legs s = []")
      case True
      then show ?thesis by (subst process_command.simps) simp
    next
      case False
      with eq u obtain x' where x': "jtag_next tgt (untag s) = Some x'"
        by (cases "jtag_next tgt (untag s)") auto
      then obtain x where x: "jtag_next tgt s = Some x" "x' = map_sum id untag x"
        by (auto simp: jtag_next_untag)
      show ?thesis
      proof (cases x)
        case (Inl e)
        with False x show ?thesis by (subst process_command.simps) simp
      next
        case (Inr s')
        with eq u False x x' have "f tgt (untag s') = Some r'" by simp
        from IH [OF this] have "\<exists>r. process_command tgt s' = Some r" by blast
        with False Inr x show ?thesis by (subst process_command.simps) simp
      qed
    qed
  qed
qed

lemma process_command_untag:
  "process_command tgt (untag s) = map_option (map_sum id untag) (process_command tgt s)"
proof (cases "process_command tgt s")
  case (Some r)
  then show ?thesis by (simp add: process_command_untag_Some)
next
  case None
  have "process_command tgt (untag s) = None"
  proof (cases "process_command tgt (untag s)")
    case (Some r')
    from process_command_untag_back [OF this] None show ?thesis by auto
  qed simp
  with None show ?thesis by simp
qed

lemma untag_append:
  "untag (a\<lparr>jtag_legs := jtag_legs a @ [l]\<rparr>) =
   (untag a)\<lparr>jtag_legs := jtag_legs (untag a) @ [untag_leg l]\<rparr>"
  by (simp add: untag_def)

lemma take3_eq:
  assumes "take 3 r = take 3 r'"
  shows "(length r < 3) = (length r' < 3)"
    and "\<not> length r < 3 \<Longrightarrow> r ! 0 = r' ! 0 \<and> r ! 1 = r' ! 1 \<and> r ! 2 = r' ! 2"
proof -
  have l: "min 3 (length r) = min 3 (length r')"
    using arg_cong [OF assms, of length] by simp
  then show "(length r < 3) = (length r' < 3)" by (auto simp: min_def split: if_splits)
  assume "\<not> length r < 3"
  have n: "take 3 r ! i = r ! i" "take 3 r' ! i = r' ! i" if "i < 3" for i
    using that by simp_all
  show "r ! 0 = r' ! 0 \<and> r ! 1 = r' ! 1 \<and> r ! 2 = r' ! 2"
    using n [of 0] n [of 1] n [of 2] assms by simp
qed

lemma parse_row_untag:
  assumes "untag a = untag b" "take 3 r = take 3 r'"
  shows "map_sum id untag (parse_row a r) = map_sum id untag (parse_row b r')"
proof (cases "length r < 3")
  case True
  then have "length r' < 3" using take3_eq(1) [OF assms(2)] by simp
  with True assms(1) show ?thesis by (simp add: parse_row_def)
next
  case False
  then have l: "\<not> length r' < 3" using take3_eq(1) [OF assms(2)] by simp
  have e: "r ! 0 = r' ! 0" "r ! Suc 0 = r' ! Suc 0" "r ! 2 = r' ! 2"
    using take3_eq(2) [OF assms(2) False] by simp_all
  show ?thesis
    using False l assms(1)
    by (auto simp: parse_row_def e Let_def untag_append split: sum.splits)
qed

lemma parse_row_loop_untag:
  assumes "list_all2 (\<lambda>r r'. take 3 r = take 3 r') rws rws'" "untag a = untag b"
  shows "map_sum id untag (parse_row_loop a rws) = map_sum id untag (parse_row_loop b rws')"
  using assms
proof (induction rws rws' arbitrary: a b rule: list_all2_induct)
  case Nil
  then show ?case by simp
next
  case (Cons r rws r' rws')
  have pr: "map_sum id untag (parse_row a r) = map_sum id untag (parse_row b r')"
    by (rule parse_row_untag [OF Cons.prems Cons.hyps(1)])
  show ?case
  proof (cases "parse_row a r")
    case (Inl e)
    with pr have "parse_row b r' = Inl e" by (cases "parse_row b r'") auto
    with Inl show ?thesis by simp
  next
    case (Inr a')
    with pr obtain b' where b': "parse_row b r' = Inr b'" "untag a' = untag b'"
      by (cases "parse_row b r'") auto
    with Inr Cons.IH [OF b'(2)] show ?thesis by simp
  qed
qed

lemma parse_rows_untag:
  assumes "list_all2 (\<lambda>r r'. take 3 r = take 3 r') rws rws'"
  shows "map_option (map_sum id untag) (parse_rows tgt s rws) =
         map_option (map_sum id untag) (parse_rows tgt s rws')"
proof -
  let ?s0 = "s\<lparr>jtag_legs := [], cur_leg := None, jtag_results := []\<rparr>"
  have pr: "map_sum id untag (parse_row_loop ?s0 rws) = map_sum id untag (parse_row_loop ?s0 rws')"
    by (rule parse_row_loop_untag [OF assms refl])
  show ?thesis
  proof (cases "parse_row_loop ?s0 rws")
    case (Inl e)
    with pr have "parse_row_loop ?s0 rws' = Inl e" by (cases "parse_row_loop ?s0 rws'") auto
    with Inl show ?thesis by (simp add: parse_rows_def)
  next
    case (Inr a)
    with pr obtain b where b: "parse_row_loop ?s0 rws' = Inr b" "untag a = untag b"
      by (cases "parse_row_loop ?s0 rws'") auto
    have "map_option (map_sum id untag) (process_command tgt a) =
          map_option (map_sum id untag) (process_command tgt b)"
      using process_command_untag [of tgt a] process_command_untag [of tgt b] b(2) by simp
    with Inr b show ?thesis by (simp add: parse_rows_def)
  qed
qed

lemma observed_untag: "observed (map_option (map_sum id untag) r) = observed r"
  by (cases r) (auto simp: observed_def sum.map_comp o_def split: sum.splits intro: sum.map_cong)

text \<open>
  C10. Two batches of rows that differ only in the fourth (tag) field of some rows give
  runs of \<open>parse_rows\<close> that agree: both do not return, or both raise the same exception, or
  both return with the same pin history (so the same sequence of \<open>phy_sync(tdi, tms)\<close>
  calls, each of which appends its own five writes) and the same \<open>jtag_results\<close>. In
  particular one call of \<open>jtag_step\<close>, the Update call with its shortcut included, maps
  states that agree up to tags to states (or exceptions) that agree up to tags.
\<close>

theorem tag_independence:
  assumes "list_all2 same_but_tag rws rws'"
  shows "observed (parse_rows tgt s rws) = observed (parse_rows tgt s rws') \<and>
         (\<forall>a b. untag a = untag b \<longrightarrow>
            map_sum id untag (jtag_step tgt a) = map_sum id untag (jtag_step tgt b))"
proof -
  have "list_all2 (\<lambda>r r'. take 3 r = take 3 r') rws rws'"
    using assms by (rule list_all2_mono) (simp add: same_but_tag_def)
  then have "map_option (map_sum id untag) (parse_rows tgt s rws) =
         map_option (map_sum id untag) (parse_rows tgt s rws')"
    by (rule parse_rows_untag)
  then have "observed (map_option (map_sum id untag) (parse_rows tgt s rws)) =
         observed (map_option (map_sum id untag) (parse_rows tgt s rws'))"
    by (rule arg_cong)
  then have 1: "observed (parse_rows tgt s rws) = observed (parse_rows tgt s rws')"
    by (simp only: observed_untag)
  have 2: "map_sum id untag (jtag_step tgt a) = map_sum id untag (jtag_step tgt b)"
    if "untag a = untag b" for a b
    using step_untag [of tgt a] step_untag [of tgt b] that by simp
  show ?thesis using 1 2 by blast
qed

theorem tag_independence_witness:
  "list_all2 same_but_tag tagged_rows retagged_rows \<and>
   observed (parse_rows toggling init_JTAGRpi tagged_rows) =
     observed (parse_rows toggling init_JTAGRpi retagged_rows) \<and>
   untag irp_dr_start =
     untag (irp_dr_start\<lparr>jtag_legs := [(IRP, ''1'', S ''id''), (DR, ''0'', S ''x'')]\<rparr>) \<and>
   map_sum id untag (jtag_step toggling irp_dr_start) =
     map_sum id untag (jtag_step toggling
       (irp_dr_start\<lparr>jtag_legs := [(IRP, ''1'', S ''id''), (DR, ''0'', S ''x'')]\<rparr>)) \<and>
   map_option (map_sum id jtag_results) (parse_rows toggling init_JTAGRpi tagged_rows) =
     Some (Inr [1, 1])"
proof -
  have h: "list_all2 same_but_tag tagged_rows retagged_rows"
    by (simp add: tagged_rows_def retagged_rows_def same_but_tag_def)
  have u: "untag irp_dr_start =
     untag (irp_dr_start\<lparr>jtag_legs := [(IRP, ''1'', S ''id''), (DR, ''0'', S ''x'')]\<rparr>)"
    by (simp add: untag_def untag_leg_def irp_dr_start_def)
  have v: "map_option (map_sum id jtag_results) (parse_rows toggling init_JTAGRpi tagged_rows) =
     Some (Inr [1, 1])"
    by code_simp
  show ?thesis
    using h u v tag_independence [OF h, of toggling init_JTAGRpi] by blast
qed

subsection \<open>Numerals and their parsing\<close>

lemma of_char_digit_char: "d < 10 \<Longrightarrow> (of_char (digit_char d) :: nat) = 48 + d"
  by (simp add: digit_char_def)

lemma digit_char_0: "digit_char 0 = CHR ''0''"
  by code_simp

lemma digit_char_1: "digit_char (Suc 0) = CHR ''1''"
proof -
  have "digit_char 1 = CHR ''1''" by code_simp
  then show ?thesis by simp
qed

lemma digit_val_digit_char: "d < 10 \<Longrightarrow> digit_val (digit_char d) = Some d"
  by (simp add: digit_val_def of_char_digit_char Let_def)

lemma digit_char_bit: "d < 2 \<Longrightarrow> digit_char d = CHR ''0'' \<or> digit_char d = CHR ''1''"
proof -
  assume "d < 2"
  then have "d = 0 \<or> d = Suc 0" by auto
  then show ?thesis
  proof
    assume "d = 0"
    then show ?thesis by (simp only: digit_char_0 simp_thms)
  next
    assume "d = Suc 0"
    then show ?thesis by (simp only: digit_char_1 simp_thms)
  qed
qed

lemma bin_digits_nonempty: "bin_digits n \<noteq> []"
  by (subst bin_digits.simps) simp

lemma bin_digits_bits: "\<forall>c \<in> set (bin_digits n). c = CHR ''0'' \<or> c = CHR ''1''"
proof (induction n rule: bin_digits.induct)
  case (1 n)
  show ?case
  proof (cases "n < 2")
    case True
    then have "bin_digits n = [digit_char n]" by (subst bin_digits.simps) simp
    with digit_char_bit [OF True] show ?thesis by simp
  next
    case False
    then have e: "bin_digits n = bin_digits (n div 2) @ [digit_char (n mod 2)]"
      by (subst bin_digits.simps) simp
    have "n mod 2 < 2" by simp
    then have l: "digit_char (n mod 2) = CHR ''0'' \<or> digit_char (n mod 2) = CHR ''1''"
      by (rule digit_char_bit)
    have "\<forall>c \<in> set (bin_digits (n div 2)). c = CHR ''0'' \<or> c = CHR ''1''"
      using 1 False by simp
    with l show ?thesis unfolding e by auto
  qed
qed

lemma bit_not_space: "c = CHR ''0'' \<or> c = CHR ''1'' \<Longrightarrow> \<not> is_space c"
  by (auto simp: is_space_def)

lemma py_strip_id:
  assumes "\<forall>c \<in> set s. \<not> is_space c"
  shows "py_strip s = s"
proof -
  have d: "dropWhile is_space xs = xs" if "\<forall>c \<in> set xs. \<not> is_space c" for xs
    using that by (cases xs) auto
  have "dropWhile is_space s = s" using assms by (rule d)
  moreover have "dropWhile is_space (rev s) = rev s" using assms by (intro d) simp
  ultimately show ?thesis by (simp add: py_strip_def)
qed

lemma digit_range:
  assumes "is_digit c"
  shows "48 \<le> (of_char c :: nat)" "(of_char c :: nat) \<le> 57"
proof -
  from assms obtain d where d: "d < 10" "c = digit_char d" by (auto simp: is_digit_def)
  then have o: "(of_char c :: nat) = 48 + d" by (simp add: of_char_digit_char)
  show "48 \<le> (of_char c :: nat)" "(of_char c :: nat) \<le> 57" using o d(1) by simp_all
qed

lemma space_range: "is_space c \<Longrightarrow> (of_char c :: nat) \<le> 32"
  unfolding is_space_def by (elim insertE) simp_all

lemma digit_not_space: "is_digit c \<Longrightarrow> \<not> is_space c"
  using digit_range(1) [of c] space_range [of c] by fastforce

lemma digit_not_special:
  assumes "is_digit c"
  shows "c \<noteq> CHR ''_''" "c \<noteq> CHR ''-''" "c \<noteq> CHR ''+''"
    "c \<noteq> CHR ''x''" "c \<noteq> CHR ''X''" "c \<noteq> CHR ''b''" "c \<noteq> CHR ''B''"
proof -
  have r: "(of_char c :: nat) \<le> 57" "48 \<le> (of_char c :: nat)"
    using digit_range [OF assms] by simp_all
  show "c \<noteq> CHR ''_''"
  proof
    assume "c = CHR ''_''"
    then have "(of_char c :: nat) = 95" by simp
    with r show False by simp
  qed
  show "c \<noteq> CHR ''-''"
  proof
    assume "c = CHR ''-''"
    then have "(of_char c :: nat) = 45" by simp
    with r show False by simp
  qed
  show "c \<noteq> CHR ''+''"
  proof
    assume "c = CHR ''+''"
    then have "(of_char c :: nat) = 43" by simp
    with r show False by simp
  qed
  show "c \<noteq> CHR ''x''"
  proof
    assume "c = CHR ''x''"
    then have "(of_char c :: nat) = 120" by simp
    with r show False by simp
  qed
  show "c \<noteq> CHR ''X''"
  proof
    assume "c = CHR ''X''"
    then have "(of_char c :: nat) = 88" by simp
    with r show False by simp
  qed
  show "c \<noteq> CHR ''b''"
  proof
    assume "c = CHR ''b''"
    then have "(of_char c :: nat) = 98" by simp
    with r show False by simp
  qed
  show "c \<noteq> CHR ''B''"
  proof
    assume "c = CHR ''B''"
    then have "(of_char c :: nat) = 66" by simp
    with r show False by simp
  qed
qed

lemma dec_digits_digits: "\<forall>c \<in> set (dec_digits n). is_digit c"
proof (induction n rule: dec_digits.induct)
  case (1 n)
  show ?case
  proof (cases "n < 10")
    case True
    then show ?thesis by (subst dec_digits.simps) (auto simp: is_digit_def)
  next
    case False
    have "n mod 10 < 10" by simp
    then have "is_digit (digit_char (n mod 10))" unfolding is_digit_def by blast
    with False 1 show ?thesis by (subst dec_digits.simps) auto
  qed
qed

lemma dec_digits_nonempty: "dec_digits n \<noteq> []"
  by (subst dec_digits.simps) simp

lemma parse_digits_bits:
  assumes "\<forall>c \<in> set ds. c = CHR ''0'' \<or> c = CHR ''1''" "ds \<noteq> [] \<or> prev"
  shows "parse_digits 10 prev acc ds =
     Some (foldl (\<lambda>a c. a * 10 + (if c = CHR ''1'' then 1 else 0)) acc ds)"
  using assms
proof (induction ds arbitrary: prev acc)
  case Nil
  then show ?case by simp
next
  case (Cons c ds)
  from Cons.prems(1) have c: "c = CHR ''0'' \<or> c = CHR ''1''" by simp
  then have dv: "digit_val c = Some (if c = CHR ''1'' then 1 else 0)"
    by (auto simp: digit_val_def)
  have nu: "c \<noteq> CHR ''_''" using c by auto
  have "parse_digits 10 True (acc * 10 + (if c = CHR ''1'' then 1 else 0)) ds =
     Some (foldl (\<lambda>a c. a * 10 + (if c = CHR ''1'' then 1 else 0))
             (acc * 10 + (if c = CHR ''1'' then 1 else 0)) ds)"
    by (rule Cons.IH) (use Cons.prems in auto)
  then show ?case using nu dv by simp
qed

lemma has_prefix_10: "has_prefix 10 s = False"
  by (cases s; cases "tl s") (simp_all add: has_prefix_def)

lemma filter_bits:
  assumes "\<forall>c \<in> set ds. c = CHR ''0'' \<or> c = CHR ''1''"
  shows "filter (\<lambda>c. c \<noteq> CHR ''_'') ds = ds"
  using assms by (induction ds) auto

lemma py_int_text_bin_digits:
  "py_int_text 10 (bin_digits m) =
     (if length (bin_digits m) > max_str_digits then Inl ValueError
      else Inr (int (binary_as_decimal m)))"
proof -
  have bits: "\<forall>c \<in> set (bin_digits m). c = CHR ''0'' \<or> c = CHR ''1''"
    by (rule bin_digits_bits)
  then have "\<forall>c \<in> set (bin_digits m). \<not> is_space c"
    using bit_not_space by blast
  then have s: "py_strip (bin_digits m) = bin_digits m" by (rule py_strip_id)
  have ne: "bin_digits m \<noteq> []" by (rule bin_digits_nonempty)
  then have h: "hd (bin_digits m) \<in> set (bin_digits m)" by simp
  with bits have "hd (bin_digits m) = CHR ''0'' \<or> hd (bin_digits m) = CHR ''1''"
    by blast
  then have hd: "hd (bin_digits m) \<noteq> CHR ''-''" "hd (bin_digits m) \<noteq> CHR ''+''"
    by auto
  have neg: "(bin_digits m \<noteq> [] \<and> hd (bin_digits m) = CHR ''-'') = False"
    using hd by simp
  have sg: "(bin_digits m \<noteq> [] \<and> (hd (bin_digits m) = CHR ''-'' \<or> hd (bin_digits m) = CHR ''+'')) = False"
    using hd by simp
  have pd: "parse_digits 10 False 0 (bin_digits m) = Some (binary_as_decimal m)"
    unfolding binary_as_decimal_def by (rule parse_digits_bits [OF bits]) (simp add: ne)
  show ?thesis
    unfolding py_int_text_def Let_def s neg sg has_prefix_10
    by (simp add: pd filter_bits [OF bits])
qed

lemma binary_as_decimal_rec:
  "binary_as_decimal m =
     (if m < 2 then m else binary_as_decimal (m div 2) * 10 + m mod 2)"
proof (cases "m < 2")
  case True
  then have "m = 0 \<or> m = Suc 0" by auto
  moreover have "bin_digits m = [digit_char m]" using True by (subst bin_digits.simps) simp
  ultimately show ?thesis
    using True by (auto simp: binary_as_decimal_def digit_char_0 digit_char_1)
next
  case False
  then have e: "bin_digits m = bin_digits (m div 2) @ [digit_char (m mod 2)]"
    by (subst bin_digits.simps) simp
  have "m mod 2 = 0 \<or> m mod 2 = Suc 0" by auto
  then have "(if digit_char (m mod 2) = CHR ''1'' then 1 else 0) = m mod 2"
    by (auto simp: digit_char_0 digit_char_1)
  then show ?thesis
    using False by (simp add: binary_as_decimal_def e)
qed

lemma binary_as_decimal_pos: "0 < m \<Longrightarrow> 0 < binary_as_decimal m"
proof (induction m rule: less_induct)
  case (less m)
  show ?case
  proof (cases "m < 2")
    case True
    with less.prems show ?thesis by (subst binary_as_decimal_rec) simp
  next
    case False
    then have "0 < m div 2" "m div 2 < m" by auto
    then have "0 < binary_as_decimal (m div 2)" using less.IH by blast
    with False show ?thesis by (subst binary_as_decimal_rec) simp
  qed
qed

lemma dec_digits_binary: "dec_digits (binary_as_decimal m) = bin_digits m"
proof (induction m rule: bin_digits.induct)
  case (1 m)
  show ?case
  proof (cases "m < 2")
    case True
    then have "binary_as_decimal m = m" by (subst binary_as_decimal_rec) simp
    moreover have "dec_digits m = [digit_char m]" using True by (subst dec_digits.simps) simp
    moreover have "bin_digits m = [digit_char m]" using True by (subst bin_digits.simps) simp
    ultimately show ?thesis by simp
  next
    case False
    let ?q = "binary_as_decimal (m div 2)"
    have r: "binary_as_decimal m = ?q * 10 + m mod 2"
      using False by (subst binary_as_decimal_rec) simp
    have "0 < m div 2" using False by auto
    then have q: "0 < ?q" by (rule binary_as_decimal_pos)
    then have big: "\<not> ?q * 10 + m mod 2 < 10" by simp
    have dv: "(?q * 10 + m mod 2) div 10 = ?q" "(?q * 10 + m mod 2) mod 10 = m mod 2"
      by simp_all
    have "dec_digits (?q * 10 + m mod 2) = dec_digits ?q @ [digit_char (m mod 2)]"
      using big by (subst dec_digits.simps) (simp only: dv if_False)
    also have "dec_digits ?q = bin_digits (m div 2)"
      using 1 False by simp
    also have "bin_digits (m div 2) @ [digit_char (m mod 2)] = bin_digits m"
      using False by (subst (2) bin_digits.simps) simp
    finally show ?thesis by (simp only: r)
  qed
qed

lemma leg_bits_nonneg:
  assumes "0 \<le> v" "0 \<le> len"
  shows "leg_bits len v =
     (if length (bin_digits (nat v)) > max_str_digits then Inl ValueError
      else Inr (replicate (nat len - length (bin_digits (nat v))) (CHR ''0'') @
                bin_digits (nat v)))"
proof -
  have "drop 2 (py_bin v) = bin_digits (nat v)" using assms(1) by (simp add: py_bin_def)
  then show ?thesis
    using assms(2)
    by (simp add: leg_bits_def py_int_text_bin_digits fmt_0star_d_def dec_digits_binary Let_def)
qed

lemma length_bin_digits: "0 < k \<Longrightarrow> m < 2 ^ k \<Longrightarrow> length (bin_digits m) \<le> k"
proof (induction m arbitrary: k rule: bin_digits.induct)
  case (1 m)
  show ?case
  proof (cases "m < 2")
    case True
    then have "bin_digits m = [digit_char m]" by (subst bin_digits.simps) simp
    with 1(2) show ?thesis by simp
  next
    case False
    then have e: "bin_digits m = bin_digits (m div 2) @ [digit_char (m mod 2)]"
      by (subst bin_digits.simps) simp
    obtain j where k: "k = Suc j" using 1(2) by (cases k) auto
    have "j \<noteq> 0" using False 1(3) k by (cases j) auto
    then have j: "0 < j" by simp
    have "m div 2 < 2 ^ j" using 1(3) k by (simp add: less_mult_imp_div_less mult.commute)
    then have "length (bin_digits (m div 2)) \<le> j"
      using 1(1) [OF False j] by simp
    then show ?thesis by (simp add: e k)
  qed
qed

lemma bin_digits_long: "2 ^ k \<le> m \<Longrightarrow> k < length (bin_digits m)"
proof (induction k arbitrary: m)
  case 0
  have "bin_digits m \<noteq> []" by (rule bin_digits_nonempty)
  then show ?case by (cases "bin_digits m") simp_all
next
  case (Suc k)
  have m: "2 * 2 ^ k \<le> m" using Suc.prems by simp
  have "(1::nat) \<le> 2 ^ k" by simp
  with m have "\<not> m < 2" by linarith
  then have e: "bin_digits m = bin_digits (m div 2) @ [digit_char (m mod 2)]"
    by (subst bin_digits.simps) simp
  have "2 ^ k \<le> m div 2" using m by linarith
  from Suc.IH [OF this] show ?case by (simp add: e)
qed

lemma length_dec_digits: "0 < k \<Longrightarrow> m < 10 ^ k \<Longrightarrow> length (dec_digits m) \<le> k"
proof (induction m arbitrary: k rule: dec_digits.induct)
  case (1 m)
  show ?case
  proof (cases "m < 10")
    case True
    then have "dec_digits m = [digit_char m]" by (subst dec_digits.simps) simp
    with 1(2) show ?thesis by simp
  next
    case False
    then have e: "dec_digits m = dec_digits (m div 10) @ [digit_char (m mod 10)]"
      by (subst dec_digits.simps) simp
    obtain j where k: "k = Suc j" using 1(2) by (cases k) auto
    have "j \<noteq> 0" using False 1(3) k by (cases j) auto
    then have j: "0 < j" by simp
    have "m div 10 < 10 ^ j" using 1(3) k by (simp add: less_mult_imp_div_less mult.commute)
    then have "length (dec_digits (m div 10)) \<le> j"
      using 1(1) [OF False j] by simp
    then show ?thesis by (simp add: e k)
  qed
qed

lemma max_str_digits_pos: "0 < max_str_digits"
  by (simp add: max_str_digits_def)

lemma dec_digits_short:
  assumes "m < 2 ^ max_str_digits"
  shows "length (dec_digits m) \<le> max_str_digits"
proof -
  have "(2::nat) ^ max_str_digits \<le> 10 ^ max_str_digits" by (rule power_mono) simp_all
  with assms have "m < 10 ^ max_str_digits" by simp
  then show ?thesis by (rule length_dec_digits [OF max_str_digits_pos])
qed

lemma leg_bits_small:
  assumes "0 \<le> v" "v < 2 ^ max_str_digits" "0 \<le> len"
  shows "leg_bits len v =
     Inr (replicate (nat len - length (bin_digits (nat v))) (CHR ''0'') @ bin_digits (nat v))"
proof -
  have "nat v < 2 ^ max_str_digits" using assms(1,2) by (simp add: nat_less_iff)
  then have "length (bin_digits (nat v)) \<le> max_str_digits"
    by (rule length_bin_digits [OF max_str_digits_pos])
  then show ?thesis by (simp add: leg_bits_nonneg [OF assms(1,3)])
qed

lemma leg_bits_large:
  assumes "2 ^ max_str_digits \<le> v" "0 \<le> len"
  shows "leg_bits len v = Inl ValueError"
proof -
  have v: "0 \<le> v" using assms(1) by (rule order_trans [rotated]) simp
  have "2 ^ max_str_digits \<le> nat v" using assms(1) v by (simp add: le_nat_iff)
  then have "max_str_digits < length (bin_digits (nat v))" by (rule bin_digits_long)
  then show ?thesis by (simp add: leg_bits_nonneg [OF v assms(2)])
qed

lemma foldl_bin_digits:
  "foldl (\<lambda>a c. 2 * a + (if c = CHR ''1'' then 1 else 0)) 0 (bin_digits m) = int m"
proof (induction m rule: bin_digits.induct)
  case (1 m)
  show ?case
  proof (cases "m < 2")
    case True
    then have "m = 0 \<or> m = Suc 0" by auto
    moreover have "bin_digits m = [digit_char m]" using True by (subst bin_digits.simps) simp
    ultimately show ?thesis by (auto simp: digit_char_0 digit_char_1)
  next
    case False
    then have e: "bin_digits m = bin_digits (m div 2) @ [digit_char (m mod 2)]"
      by (subst bin_digits.simps) simp
    have "m mod 2 = 0 \<or> m mod 2 = Suc 0" by auto
    then have l: "(if digit_char (m mod 2) = CHR ''1'' then 1 else 0) = int (m mod 2)"
      by (auto simp: digit_char_0 digit_char_1)
    have "foldl (\<lambda>a c. 2 * a + (if c = CHR ''1'' then 1 else 0)) 0 (bin_digits (m div 2)) =
          int (m div 2)"
      using 1 False by simp
    then have "foldl (\<lambda>a c. 2 * a + (if c = CHR ''1'' then 1 else 0)) 0 (bin_digits m) =
          2 * int (m div 2) + int (m mod 2)"
      unfolding e by (simp add: l)
    also have "\<dots> = int m" by (simp add: zmod_int zdiv_int)
    finally show ?thesis .
  qed
qed

lemma foldl_zeros:
  "foldl (\<lambda>a c. 2 * a + (if c = CHR ''1'' then 1 else 0)) (0::int) (replicate k (CHR ''0'')) = 0"
  by (induction k) simp_all

lemma int_base2_padded:
  "int_base2 (replicate k (CHR ''0'') @ bin_digits m) = Inr (int m)"
proof -
  let ?v = "replicate k (CHR ''0'') @ bin_digits m"
  have bit: "c = CHR ''0'' \<or> c = CHR ''1''" if "c \<in> set ?v" for c
  proof -
    from that have "c \<in> set (replicate k (CHR ''0'')) \<or> c \<in> set (bin_digits m)"
      by (simp only: set_append Un_iff)
    then show ?thesis
    proof
      assume "c \<in> set (replicate k (CHR ''0''))"
      then have "c = CHR ''0''" by (simp only: in_set_replicate)
      then show ?thesis by (rule disjI1)
    next
      assume "c \<in> set (bin_digits m)"
      with bin_digits_bits [of m] show ?thesis by (rule bspec)
    qed
  qed
  have "?v \<noteq> []" using bin_digits_nonempty [of m] by (simp only: append_is_Nil_conv simp_thms)
  moreover have "\<not> (\<exists>c \<in> set ?v. c \<noteq> CHR ''0'' \<and> c \<noteq> CHR ''1'')"
    using bit by blast
  ultimately have cond: "(?v = [] \<or> (\<exists>c \<in> set ?v. c \<noteq> CHR ''0'' \<and> c \<noteq> CHR ''1'')) = False"
    by (simp only: simp_thms)
  show ?thesis
    by (simp only: int_base2_def cond if_False foldl_append foldl_zeros foldl_bin_digits)
qed

lemma py_str_int_chars:
  assumes "py_str_int n = Inr t"
  shows "take 2 (py_strip t) \<noteq> ''0x'' \<and> take 2 (py_strip t) \<noteq> ''0b''"
proof -
  let ?ds = "dec_digits (nat \<bar>n\<bar>)"
  have dig: "\<forall>c \<in> set ?ds. is_digit c" by (rule dec_digits_digits)
  have nsp: "\<forall>c \<in> set ?ds. \<not> is_space c" using dig digit_not_space by blast
  have nx: "CHR ''x'' \<notin> set ?ds" "CHR ''b'' \<notin> set ?ds"
    using dig digit_not_special(4,6) by blast+
  show ?thesis
  proof (cases "n < 0")
    case True
    then have e: "t = CHR ''-'' # ?ds"
      using assms by (simp add: py_str_int_def split: if_splits)
    have "\<not> is_space (CHR ''-'')" by (simp add: is_space_def)
    then have "py_strip t = t"
      using nsp unfolding e by (intro py_strip_id) simp
    then show ?thesis by (simp add: e)
  next
    case False
    then have e: "t = ?ds"
      using assms by (simp add: py_str_int_def split: if_splits)
    have s: "py_strip t = ?ds"
      using nsp unfolding e by (rule py_strip_id)
    have "take 2 ?ds \<noteq> [c0, c1]" if "c1 \<notin> set ?ds" for c0 c1
    proof
      assume "take 2 ?ds = [c0, c1]"
      then have "c1 \<in> set (take 2 ?ds)" by simp
      then have "c1 \<in> set ?ds" by (rule in_set_takeD)
      with that show False by simp
    qed
    from this [OF nx(1)] this [OF nx(2)] show ?thesis unfolding s by simp
  qed
qed

lemma parse_value_int:
  assumes "0 \<le> n" "n < 2 ^ max_str_digits"
  shows "parse_value (I n) = Inr n"
proof -
  have "nat n < 2 ^ max_str_digits" using assms by (simp add: nat_less_iff)
  then have "length (dec_digits (nat n)) \<le> max_str_digits" by (rule dec_digits_short)
  then have e: "py_str_int n = Inr (dec_digits (nat n))"
    using assms(1) by (simp add: py_str_int_def)
  from py_str_int_chars [OF e] show ?thesis
    by (simp add: parse_value_def py_str_def py_int_def e)
qed

lemma chain_dr: "py_strip (py_lower ''dr'') = ''dr''" and chain_ir: "py_strip (py_lower ''ir'') = ''ir''"
  by code_simp+

lemma parse_row_dr:
  assumes "0 \<le> v" "v < 2 ^ max_str_digits" "0 \<le> len"
  shows "parse_row s [S ''dr'', I len, I v] =
     Inr (s\<lparr>jtag_legs := jtag_legs s @
            [(DR, replicate (nat len - length (bin_digits (nat v))) (CHR ''0'') @ bin_digits (nat v),
              S '' '')]\<rparr>)"
  by (simp add: parse_row_def py_str_def chain_dr py_int_def parse_value_int [OF assms(1,2)]
      chains_def leg_bits_small [OF assms])

lemma parse_row_ir:
  assumes "0 \<le> v" "v < 2 ^ max_str_digits" "0 \<le> len"
  shows "parse_row s [S ''ir'', I len, I v, S ''id''] =
     Inr (s\<lparr>jtag_legs := jtag_legs s @
            [(IR, replicate (nat len - length (bin_digits (nat v))) (CHR ''0'') @ bin_digits (nat v),
              S ''id'')]\<rparr>)"
  by (simp add: parse_row_def py_str_def chain_ir py_int_def parse_value_int [OF assms(1,2)]
      chains_def leg_bits_small [OF assms])

lemma parse_row_dr_large:
  assumes "2 ^ max_str_digits \<le> v" "0 \<le> len"
  shows "parse_row s [S ''dr'', I len, I v] = Inl ValueError"
proof (cases "length (dec_digits (nat \<bar>v\<bar>)) > max_str_digits")
  case True
  then have "py_str_int v = Inl ValueError" by (simp add: py_str_int_def)
  then have "parse_value (I v) = Inl ValueError" by (simp add: parse_value_def py_str_def)
  then show ?thesis by (simp add: parse_row_def py_str_def chain_dr py_int_def chains_def)
next
  case False
  have v: "0 \<le> v" using assms(1) by (rule order_trans [rotated]) simp
  then have e: "py_str_int v = Inr (dec_digits (nat v))"
    using False by (simp add: py_str_int_def)
  have pv: "parse_value (I v) = Inr v"
    using py_str_int_chars [OF e] by (simp add: parse_value_def py_str_def py_int_def e)
  show ?thesis
    by (simp add: parse_row_def py_str_def chain_dr py_int_def pv chains_def
        leg_bits_large [OF assms])
qed

subsection \<open>The walker on the rows of \<open>access\<close>\<close>

lemma at_update_fields:
  "state (at_update tgt s bits) = UPDATE" "jtag_legs (at_update tgt s bits) = jtag_legs s"
  "devices (at_update tgt s bits) = devices s" "cur_leg (at_update tgt s bits) = None"
  "do_pause (at_update tgt s bits) = False"
  by (simp_all add: at_update_def)

lemma run_to_idle_step:
  "\<not> idle s \<Longrightarrow> jtag_step tgt s = Inr s' \<Longrightarrow> run_to_idle tgt s = run_to_idle tgt s'"
  by (subst run_to_idle.simps) simp

lemma run_to_idle_done: "idle s \<Longrightarrow> run_to_idle tgt s = Some (Inr s)"
  by (subst run_to_idle.simps) simp

lemma run_scan_last:
  assumes "state s = SELECT_SCAN" "cur_leg s = Some (k, bits, tag)" "k \<noteq> DRC" "k \<noteq> DRS"
    "bits \<noteq> []" "jtag_legs s = []"
  shows "\<exists>s' v. run_to_idle tgt s = Some (Inr s') \<and> state s' = RUN_TEST_IDLE \<and>
     jtag_legs s' = [] \<and> cur_leg s' = None \<and> devices s' = devices s \<and>
     jtag_results s' = jtag_results s @ [v]"
proof -
  let ?u = "at_update tgt s bits"
  let ?v = "scan_value tgt (pins s @ cycle False False @ cycle False False) bits"
  let ?s' = "?u\<lparr>jtag_results := jtag_results ?u @ [?v], tdo_vect := [],
            readdata := (if readout ?u then ?v else readdata ?u), readout := False,
            pins := pins ?u @ cycle False False, state := RUN_TEST_IDLE\<rparr>"
  have b: "busy_steps tgt (length bits + (if do_pause s then 5 else 3)) s ?u"
    by (rule scan_to_update [OF assms(1-5)])
  have v: "int_base2 (tdo_vect ?u) = Inr ?v" by (rule at_update_value [OF assms(5)])
  have st: "jtag_step tgt ?u = Inr ?s'"
    by (rule step_update_last [OF _ v]) (simp_all add: at_update_fields assms)
  have "run_to_idle tgt s = run_to_idle tgt ?u" by (rule run_to_idle_busy [OF b])
  also have "\<dots> = run_to_idle tgt ?s'"
    by (rule run_to_idle_step [OF _ st]) (simp add: idle_def at_update_fields)
  also have "\<dots> = Some (Inr ?s')" by (rule run_to_idle_done) (simp add: idle_def)
  finally have "run_to_idle tgt s = Some (Inr ?s')" .
  moreover have "state ?s' = RUN_TEST_IDLE" "jtag_legs ?s' = []" "cur_leg ?s' = None"
    "devices ?s' = devices s" "jtag_results ?s' = jtag_results s @ [?v]"
    by (simp_all add: at_update_fields at_update_results assms)
  ultimately show ?thesis by blast
qed

lemma run_scan_then_dr:
  assumes "state s = SELECT_SCAN" "cur_leg s = Some (k, bits, tag)" "k \<noteq> DRC" "k \<noteq> DRS"
    "bits \<noteq> []" "jtag_legs s = [(DR, b2, t2)]" "b2 \<noteq> []"
  shows "\<exists>s' v1 v2. run_to_idle tgt s = Some (Inr s') \<and> state s' = RUN_TEST_IDLE \<and>
     jtag_legs s' = [] \<and> cur_leg s' = None \<and> devices s' = devices s \<and>
     jtag_results s' = jtag_results s @ [v1, v2]"
proof -
  let ?u = "at_update tgt s bits"
  let ?v = "scan_value tgt (pins s @ cycle False False @ cycle False False) bits"
  let ?s1 = "?u\<lparr>jtag_results := jtag_results ?u @ [?v], tdo_vect := [],
            readdata := (if readout ?u then ?v else readdata ?u), readout := False,
            cur_leg := Some (DR, b2, t2), jtag_legs := [],
            pins := pins ?u @ cycle False True, state := SELECT_SCAN\<rparr>"
  have b: "busy_steps tgt (length bits + (if do_pause s then 5 else 3)) s ?u"
    by (rule scan_to_update [OF assms(1-5)])
  have v: "int_base2 (tdo_vect ?u) = Inr ?v" by (rule at_update_value [OF assms(5)])
  have st: "jtag_step tgt ?u = Inr ?s1"
    by (rule step_update_dr [OF _ v]) (simp_all add: at_update_fields assms)
  have "run_to_idle tgt s = run_to_idle tgt ?u" by (rule run_to_idle_busy [OF b])
  also have "\<dots> = run_to_idle tgt ?s1"
    by (rule run_to_idle_step [OF _ st]) (simp add: idle_def at_update_fields)
  finally have eq: "run_to_idle tgt s = run_to_idle tgt ?s1" .
  have "\<exists>s' v. run_to_idle tgt ?s1 = Some (Inr s') \<and> state s' = RUN_TEST_IDLE \<and>
     jtag_legs s' = [] \<and> cur_leg s' = None \<and> devices s' = devices ?s1 \<and>
     jtag_results s' = jtag_results ?s1 @ [v]"
    by (rule run_scan_last [where k = DR and bits = b2 and tag = t2]) (simp_all add: assms)
  then obtain s' v2 where r: "run_to_idle tgt ?s1 = Some (Inr s')" "state s' = RUN_TEST_IDLE"
     "jtag_legs s' = []" "cur_leg s' = None" "devices s' = devices ?s1"
     "jtag_results s' = jtag_results ?s1 @ [v2]" by blast
  have "devices s' = devices s" using r(5) by (simp add: at_update_fields)
  moreover have "jtag_results s' = jtag_results s @ [?v, v2]"
    using r(6) by (simp add: at_update_results)
  ultimately show ?thesis using eq r(1-4) by auto
qed

lemma run_out_of_idle_busy: "\<not> idle s \<Longrightarrow> run_out_of_idle tgt s = Some (Inr s)"
  by (subst run_out_of_idle.simps) simp

lemma run_out_of_idle_step:
  "idle s \<Longrightarrow> jtag_step tgt s = Inr s' \<Longrightarrow> cur_leg s' \<noteq> None \<Longrightarrow>
   run_out_of_idle tgt s = run_out_of_idle tgt s'"
  by (subst run_out_of_idle.simps) auto

lemma process_command_done: "jtag_legs s = [] \<Longrightarrow> process_command tgt s = Some (Inr s)"
  by (subst process_command.simps) simp

lemma process_dr:
  assumes "state s = RUN_TEST_IDLE" "cur_leg s = None" "jtag_legs s = [(DR, b2, t2)]" "b2 \<noteq> []"
  shows "\<exists>s' v. process_command tgt s = Some (Inr s') \<and> state s' = RUN_TEST_IDLE \<and>
     jtag_legs s' = [] \<and> cur_leg s' = None \<and> devices s' = devices s \<and>
     jtag_results s' = jtag_results s @ [v]"
proof -
  let ?sa = "s\<lparr>cur_leg := Some (DR, b2, t2), jtag_legs := []\<rparr>"
  let ?sb = "?sa\<lparr>pins := pins ?sa @ cycle False True, readout := False, state := SELECT_SCAN\<rparr>"
  have 1: "jtag_step tgt s = Inr ?sa" by (rule step_idle_pop [OF assms(1-3)])
  have 2: "jtag_step tgt ?sa = Inr ?sb" by (rule step_idle_dr) (simp_all add: assms)
  have "run_out_of_idle tgt s = run_out_of_idle tgt ?sa"
    by (rule run_out_of_idle_step [OF _ 1]) (simp_all add: idle_def assms)
  also have "\<dots> = run_out_of_idle tgt ?sb"
    by (rule run_out_of_idle_step [OF _ 2]) (simp_all add: idle_def assms)
  also have "\<dots> = Some (Inr ?sb)" by (rule run_out_of_idle_busy) (simp add: idle_def)
  finally have o: "run_out_of_idle tgt s = Some (Inr ?sb)" .
  have "\<exists>s' v. run_to_idle tgt ?sb = Some (Inr s') \<and> state s' = RUN_TEST_IDLE \<and>
     jtag_legs s' = [] \<and> cur_leg s' = None \<and> devices s' = devices ?sb \<and>
     jtag_results s' = jtag_results ?sb @ [v]"
    by (rule run_scan_last [where k = DR and bits = b2 and tag = t2]) (simp_all add: assms)
  then obtain s' v where r: "run_to_idle tgt ?sb = Some (Inr s')" "state s' = RUN_TEST_IDLE"
     "jtag_legs s' = []" "cur_leg s' = None" "devices s' = devices ?sb"
     "jtag_results s' = jtag_results ?sb @ [v]" by blast
  have n: "jtag_next tgt s = Some (Inr s')"
    using o r(1) by (simp add: jtag_next_def idle_def assms)
  have "process_command tgt s = process_command tgt s'"
    by (subst process_command.simps) (simp add: assms n)
  also have "\<dots> = Some (Inr s')" by (rule process_command_done [OF r(3)])
  finally show ?thesis using r by auto
qed

lemma process_ir_dr:
  assumes "state s = RUN_TEST_IDLE" "cur_leg s = None"
    "jtag_legs s = [(IR, b1, t1), (DR, b2, t2)]" "b1 \<noteq> []" "b2 \<noteq> []"
  shows "\<exists>s' v1 v2. process_command tgt s = Some (Inr s') \<and> state s' = RUN_TEST_IDLE \<and>
     jtag_legs s' = [] \<and> cur_leg s' = None \<and> devices s' = devices s \<and>
     jtag_results s' = jtag_results s @ [v1, v2]"
proof -
  let ?sa = "s\<lparr>cur_leg := Some (IR, b1, t1), jtag_legs := [(DR, b2, t2)]\<rparr>"
  let ?sb = "?sa\<lparr>pins := pins ?sa @ cycle False True @ cycle False True, do_pause := False,
                state := SELECT_SCAN\<rparr>"
  have 1: "jtag_step tgt s = Inr ?sa" by (rule step_idle_pop [OF assms(1-3)])
  have 2: "jtag_step tgt ?sa = Inr ?sb" by (rule step_idle_ir [where k = IR and bits = b1 and tag = t1]) (simp_all add: assms)
  have "run_out_of_idle tgt s = run_out_of_idle tgt ?sa"
    by (rule run_out_of_idle_step [OF _ 1]) (simp_all add: idle_def assms)
  also have "\<dots> = run_out_of_idle tgt ?sb"
    by (rule run_out_of_idle_step [OF _ 2]) (simp_all add: idle_def assms)
  also have "\<dots> = Some (Inr ?sb)" by (rule run_out_of_idle_busy) (simp add: idle_def)
  finally have o: "run_out_of_idle tgt s = Some (Inr ?sb)" .
  have "\<exists>s' v1 v2. run_to_idle tgt ?sb = Some (Inr s') \<and> state s' = RUN_TEST_IDLE \<and>
     jtag_legs s' = [] \<and> cur_leg s' = None \<and> devices s' = devices ?sb \<and>
     jtag_results s' = jtag_results ?sb @ [v1, v2]"
    by (rule run_scan_then_dr [where k = IR and bits = b1 and tag = t1 and ?b2.0 = b2 and ?t2.0 = t2])
      (simp_all add: assms)
  then obtain s' v1 v2 where r: "run_to_idle tgt ?sb = Some (Inr s')" "state s' = RUN_TEST_IDLE"
     "jtag_legs s' = []" "cur_leg s' = None" "devices s' = devices ?sb"
     "jtag_results s' = jtag_results ?sb @ [v1, v2]" by blast
  have n: "jtag_next tgt s = Some (Inr s')"
    using o r(1) by (simp add: jtag_next_def idle_def assms)
  have "process_command tgt s = process_command tgt s'"
    by (subst process_command.simps) (simp add: assms n)
  also have "\<dots> = Some (Inr s')" by (rule process_command_done [OF r(3)])
  finally show ?thesis using r by auto
qed

lemma step_reset_wake:
  assumes "state s = TEST_LOGIC_RESET" "jtag_legs s \<noteq> []"
  shows "jtag_step tgt s =
     Inr (s\<lparr>pins := pins s @ cycle False False, state := RUN_TEST_IDLE, last_ir_val := - 1\<rparr>)"
  using assms by (simp add: jtag_step_def)

lemma process_from_reset:
  assumes "state s = TEST_LOGIC_RESET" "cur_leg s = None" "jtag_legs s \<noteq> []"
  shows "process_command tgt s =
     process_command tgt
       (s\<lparr>pins := pins s @ cycle False False, state := RUN_TEST_IDLE, last_ir_val := - 1\<rparr>)"
proof -
  let ?s1 = "s\<lparr>pins := pins s @ cycle False False, state := RUN_TEST_IDLE, last_ir_val := - 1\<rparr>"
  have 1: "jtag_step tgt s = Inr ?s1" by (rule step_reset_wake [OF assms(1,3)])
  have o: "run_out_of_idle tgt s = Some (Inr ?s1)"
    by (subst run_out_of_idle.simps) (simp add: idle_def assms 1)
  have r: "run_to_idle tgt ?s1 = Some (Inr ?s1)"
    by (rule run_to_idle_done) (simp add: idle_def)
  have n: "jtag_next tgt s = Some (Inr ?s1)"
    using o r by (simp add: jtag_next_def idle_def assms)
  show ?thesis
    by (subst process_command.simps) (simp add: assms n)
qed

lemma process_dr_idle:
  assumes "idle s" "cur_leg s = None" "jtag_legs s = [(DR, b2, t2)]" "b2 \<noteq> []"
  shows "\<exists>s' v. process_command tgt s = Some (Inr s') \<and> state s' = RUN_TEST_IDLE \<and>
     jtag_legs s' = [] \<and> cur_leg s' = None \<and> devices s' = devices s \<and>
     jtag_results s' = jtag_results s @ [v]"
proof (cases "state s = RUN_TEST_IDLE")
  case True
  then show ?thesis by (rule process_dr [OF _ assms(2-4)])
next
  case False
  then have t: "state s = TEST_LOGIC_RESET" using assms(1) by (simp add: idle_def)
  let ?s1 = "s\<lparr>pins := pins s @ cycle False False, state := RUN_TEST_IDLE, last_ir_val := - 1\<rparr>"
  have e: "process_command tgt s = process_command tgt ?s1"
    by (rule process_from_reset [OF t assms(2)]) (simp add: assms(3))
  have "\<exists>s' v. process_command tgt ?s1 = Some (Inr s') \<and> state s' = RUN_TEST_IDLE \<and>
     jtag_legs s' = [] \<and> cur_leg s' = None \<and> devices s' = devices ?s1 \<and>
     jtag_results s' = jtag_results ?s1 @ [v]"
    by (rule process_dr [where ?b2.0 = b2 and ?t2.0 = t2]) (simp_all add: assms)
  then show ?thesis unfolding e by simp
qed

lemma process_ir_dr_idle:
  assumes "idle s" "cur_leg s = None"
    "jtag_legs s = [(IR, b1, t1), (DR, b2, t2)]" "b1 \<noteq> []" "b2 \<noteq> []"
  shows "\<exists>s' v1 v2. process_command tgt s = Some (Inr s') \<and> state s' = RUN_TEST_IDLE \<and>
     jtag_legs s' = [] \<and> cur_leg s' = None \<and> devices s' = devices s \<and>
     jtag_results s' = jtag_results s @ [v1, v2]"
proof (cases "state s = RUN_TEST_IDLE")
  case True
  then show ?thesis by (rule process_ir_dr [OF _ assms(2-5)])
next
  case False
  then have t: "state s = TEST_LOGIC_RESET" using assms(1) by (simp add: idle_def)
  let ?s1 = "s\<lparr>pins := pins s @ cycle False False, state := RUN_TEST_IDLE, last_ir_val := - 1\<rparr>"
  have e: "process_command tgt s = process_command tgt ?s1"
    by (rule process_from_reset [OF t assms(2)]) (simp add: assms(3))
  have "\<exists>s' v1 v2. process_command tgt ?s1 = Some (Inr s') \<and> state s' = RUN_TEST_IDLE \<and>
     jtag_legs s' = [] \<and> cur_leg s' = None \<and> devices s' = devices ?s1 \<and>
     jtag_results s' = jtag_results ?s1 @ [v1, v2]"
    by (rule process_ir_dr [where ?b1.0 = b1 and ?t1.0 = t1 and ?b2.0 = b2 and ?t2.0 = t2])
      (simp_all add: assms)
  then show ?thesis unfolding e by simp
qed

subsection \<open>The rows that \<open>access\<close> builds\<close>

lemma access_rows_fields:
  assumes "access_rows s addr data dev w = Inr v"
  shows "device v = dev" and "dr_mask v = 2 ^ dr_len v - 1"
    and "total_dr_len v = int (dr_len v) + int (length (devices s)) - 1"
    and "dr_val v = (if w then push_bit (nat (int (length (devices s)) - 1 - dev)) data else 0)"
    and "rows v =
       (if total_ir_val v \<noteq> last_ir_val s
        then [[S ''ir'', I (int (total_ir_len v)), I (total_ir_val v), S ''id'']] else []) @
       [[S ''dr'', I (total_dr_len v), I (dr_val v)]]"
    and "total_ir (devices s) dev (ir_val v) = Inr (total_ir_val v, total_ir_len v)"
    and "0 \<le> ir_val v" and "- int (length (devices s)) \<le> dev"
    and "dev < int (length (devices s))"
  using assms
  by (auto simp: access_rows_def Let_def py_index_def lookup_address_def
      split: sum.splits if_splits option.splits prod.splits)

lemma ir_loop_nonneg:
  "ir_loop dev a xs (tv, tlen) = Inr (tv', tlen') \<Longrightarrow> 0 \<le> a \<Longrightarrow> 0 \<le> tv \<Longrightarrow> 0 \<le> tv'"
proof (induction xs arbitrary: tv tlen)
  case Nil
  then show ?case by simp
next
  case (Cons x xs)
  obtain i d where x: "x = (i, d)" by (cases x)
  from Cons.prems(1) obtain v where
    v: "(if int i = dev then Inr a else name_address d ''BYPASS'') = Inr v"
    and r: "ir_loop dev a xs (tv + push_bit tlen v, tlen + ir_len d) = Inr (tv', tlen')"
    unfolding x by (auto split: sum.splits)
  have "0 \<le> v" using v Cons.prems(2)
    by (auto simp: name_address_def split: if_splits option.splits)
  then have "0 \<le> tv + push_bit tlen v" using Cons.prems(3) by simp
  from Cons.IH [OF r Cons.prems(2) this] show ?case .
qed

lemma total_ir_nonneg:
  "total_ir devs dev a = Inr (tv, tlen) \<Longrightarrow> 0 \<le> a \<Longrightarrow> 0 \<le> tv"
  using ir_loop_nonneg [of dev a "rev (enumerate 0 devs)" 0 0 tv tlen] by (simp add: total_ir_def)

lemma access_rows_nonneg:
  assumes "access_rows s addr data dev w = Inr v"
  shows "0 \<le> total_ir_val v" and "0 \<le> total_dr_len v" and "total_ir_val v \<noteq> - 1"
proof -
  show a: "0 \<le> total_ir_val v"
    using total_ir_nonneg [OF access_rows_fields(6) [OF assms] access_rows_fields(7) [OF assms]] .
  show "0 \<le> total_dr_len v"
    using access_rows_fields(3,8,9) [OF assms] by simp
  show "total_ir_val v \<noteq> - 1" using a by simp
qed

lemma parse_rows_access:
  assumes "access_rows s addr data dev w = Inr v" "idle s"
    "total_ir_val v < 2 ^ max_str_digits" "0 \<le> dr_val v" "dr_val v < 2 ^ max_str_digits"
  shows "\<exists>s1. parse_rows tgt s (rows v) = Some (Inr s1) \<and> state s1 = RUN_TEST_IDLE \<and>
     devices s1 = devices s \<and> length (jtag_results s1) = length (rows v)"
proof -
  let ?s0 = "s\<lparr>jtag_legs := [], cur_leg := None, jtag_results := []\<rparr>"
  let ?b = "\<lambda>len x. replicate (nat len - length (bin_digits (nat x))) (CHR ''0'') @ bin_digits (nat x)"
  let ?dr = "(DR, ?b (total_dr_len v) (dr_val v), S '' '')"
  let ?ir = "(IR, ?b (int (total_ir_len v)) (total_ir_val v), S ''id'')"
  have dl: "0 \<le> total_dr_len v" by (rule access_rows_nonneg(2) [OF assms(1)])
  have iv: "0 \<le> total_ir_val v" by (rule access_rows_nonneg(1) [OF assms(1)])
  have i0: "idle ?s0" using assms(2) by (simp add: idle_def)
  show ?thesis
  proof (cases "total_ir_val v \<noteq> last_ir_val s")
    case True
    then have rws: "rows v = [[S ''ir'', I (int (total_ir_len v)), I (total_ir_val v), S ''id''],
        [S ''dr'', I (total_dr_len v), I (dr_val v)]]"
      using access_rows_fields(5) [OF assms(1)] by simp
    have p: "parse_row_loop ?s0 (rows v) = Inr (?s0\<lparr>jtag_legs := [?ir, ?dr]\<rparr>)"
      unfolding rws
      by (simp add: parse_row_ir [OF iv assms(3)] parse_row_dr [OF assms(4,5) dl])
    have "\<exists>s' v1 v2. process_command tgt (?s0\<lparr>jtag_legs := [?ir, ?dr]\<rparr>) = Some (Inr s') \<and>
       state s' = RUN_TEST_IDLE \<and> jtag_legs s' = [] \<and> cur_leg s' = None \<and>
       devices s' = devices (?s0\<lparr>jtag_legs := [?ir, ?dr]\<rparr>) \<and>
       jtag_results s' = jtag_results (?s0\<lparr>jtag_legs := [?ir, ?dr]\<rparr>) @ [v1, v2]"
    proof (rule process_ir_dr_idle)
      show "jtag_legs (?s0\<lparr>jtag_legs := [?ir, ?dr]\<rparr>) = [?ir, ?dr]" by simp
      show "idle (?s0\<lparr>jtag_legs := [?ir, ?dr]\<rparr>)" using assms(2) by (simp add: idle_def)
    qed (simp_all add: bin_digits_nonempty)
    moreover have "parse_rows tgt s (rows v) = process_command tgt (?s0\<lparr>jtag_legs := [?ir, ?dr]\<rparr>)"
      by (simp add: parse_rows_def p)
    moreover have "length (rows v) = 2" by (simp add: rws)
    ultimately show ?thesis by auto
  next
    case False
    then have rws: "rows v = [[S ''dr'', I (total_dr_len v), I (dr_val v)]]"
      using access_rows_fields(5) [OF assms(1)] by simp
    have p: "parse_row_loop ?s0 (rows v) = Inr (?s0\<lparr>jtag_legs := [?dr]\<rparr>)"
      unfolding rws by (simp add: parse_row_dr [OF assms(4,5) dl])
    have "\<exists>s' v1. process_command tgt (?s0\<lparr>jtag_legs := [?dr]\<rparr>) = Some (Inr s') \<and>
       state s' = RUN_TEST_IDLE \<and> jtag_legs s' = [] \<and> cur_leg s' = None \<and>
       devices s' = devices (?s0\<lparr>jtag_legs := [?dr]\<rparr>) \<and>
       jtag_results s' = jtag_results (?s0\<lparr>jtag_legs := [?dr]\<rparr>) @ [v1]"
    proof (rule process_dr_idle)
      show "jtag_legs (?s0\<lparr>jtag_legs := [?dr]\<rparr>) = [?dr]" by simp
      show "idle (?s0\<lparr>jtag_legs := [?dr]\<rparr>)" using assms(2) by (simp add: idle_def)
    qed (simp_all add: bin_digits_nonempty)
    moreover have "parse_rows tgt s (rows v) = process_command tgt (?s0\<lparr>jtag_legs := [?dr]\<rparr>)"
      by (simp add: parse_rows_def p)
    moreover have "length (rows v) = 1" by (simp add: rws)
    ultimately show ?thesis by auto
  qed
qed

lemma access_total:
  assumes "access_rows s addr data dev w = Inr v" "idle s"
    "total_ir_val v < 2 ^ max_str_digits" "0 \<le> dr_val v" "dr_val v < 2 ^ max_str_digits"
  shows "\<exists>s1. parse_rows tgt s (rows v) = Some (Inr s1) \<and> jtag_results s1 \<noteq> [] \<and>
     state s1 = RUN_TEST_IDLE \<and> devices s1 = devices s \<and>
     access tgt s addr data dev w =
       Some (Inr (drop_bit (nat (int (length (devices s)) - 1 - dev)) (last (jtag_results s1))
                    AND (2 ^ dr_len v - 1),
                  s1\<lparr>last_ir_val := total_ir_val v, jtag_results := butlast (jtag_results s1)\<rparr>))"
proof -
  obtain s1 where s1: "parse_rows tgt s (rows v) = Some (Inr s1)" "state s1 = RUN_TEST_IDLE"
     "devices s1 = devices s" "length (jtag_results s1) = length (rows v)"
    using parse_rows_access [OF assms] by blast
  have "rows v \<noteq> []" using access_rows_fields(5) [OF assms(1)] by simp
  then have ne: "jtag_results s1 \<noteq> []" using s1(4) by auto
  have "access tgt s addr data dev w =
       Some (Inr (drop_bit (nat (int (length (devices s)) - 1 - dev)) (last (jtag_results s1))
                    AND (2 ^ dr_len v - 1),
                  s1\<lparr>last_ir_val := total_ir_val v, jtag_results := butlast (jtag_results s1)\<rparr>))"
    using ne by (simp add: access_def assms(1) s1(1,3) Let_def access_rows_fields(1,2) [OF assms(1)])
  then show ?thesis using s1 ne by blast
qed

subsection \<open>The instruction vector of a chain of two\<close>

lemma total_ir_two:
  "total_ir [d0, d1] 0 a =
     (case name_address d1 ''BYPASS'' of
        Inl e \<Rightarrow> Inl e
      | Inr b \<Rightarrow> Inr (b + push_bit (ir_len d1) a, ir_len d1 + ir_len d0))"
  by (simp add: total_ir_def split: sum.splits)

lemma add_or_low:
  fixes b :: int
  assumes "0 \<le> b" "b < 2 ^ n"
  shows "b + push_bit n a = b OR push_bit n a"
proof -
  have "take_bit n b = b" using assms by (simp add: take_bit_int_eq_self)
  then show ?thesis using concat_bit_eq [of n b a] by (simp add: concat_bit_def)
qed

text \<open>
  C3. In a chain of two devices with device 0 addressed, \<open>access\<close> places the BYPASS
  opcode of device 1 in the low \<open>ir_len\<close> (of device 1) bits of \<open>total_ir_val\<close> and the
  opcode of device 0 above them: the loop runs from the highest index down, and each
  opcode is shifted by the lengths already accumulated. The total length is the sum of
  the two lengths, and the opcode is the one \<open>addr\<close> names in the catalog of device 0.
\<close>

theorem two_device_ir:
  assumes "devices s = [d0, d1]" "access_rows s addr data 0 w = Inr v"
  shows "\<exists>b. map_of (names d1) ''BYPASS'' = Some b \<and>
     total_ir_val v = int (address b) + push_bit (ir_len d1) (ir_val v) \<and>
     total_ir_len v = ir_len d1 + ir_len d0 \<and>
     (address b < 2 ^ ir_len d1 \<longrightarrow>
        total_ir_val v = int (address b) OR push_bit (ir_len d1) (ir_val v)) \<and>
     (case addr of I a \<Rightarrow> ir_val v = a | S key \<Rightarrow> name_address d0 key = Inr (ir_val v)) \<and>
     (\<exists>reg. lookup_address d0 (ir_val v) = Inr reg)"
proof -
  have t: "total_ir [d0, d1] 0 (ir_val v) = Inr (total_ir_val v, total_ir_len v)"
    using access_rows_fields(6) [OF assms(2)] assms(1) by simp
  then obtain b where b: "map_of (names d1) ''BYPASS'' = Some b"
    and tv: "total_ir_val v = int (address b) + push_bit (ir_len d1) (ir_val v)"
    and tl: "total_ir_len v = ir_len d1 + ir_len d0"
    by (auto simp: total_ir_two name_address_def split: option.splits sum.splits)
  have o: "total_ir_val v = int (address b) OR push_bit (ir_len d1) (ir_val v)"
    if "address b < 2 ^ ir_len d1"
  proof -
    have "int (address b) < 2 ^ ir_len d1" using that by (simp flip: of_nat_less_iff)
    then show ?thesis using add_or_low [of "int (address b)" "ir_len d1" "ir_val v"] tv by simp
  qed
  have a: "(case addr of I a \<Rightarrow> ir_val v = a | S key \<Rightarrow> name_address d0 key = Inr (ir_val v)) \<and>
     (\<exists>reg. lookup_address d0 (ir_val v) = Inr reg)"
    using assms
    by (auto simp: access_rows_def Let_def py_index_def
        split: sum.splits if_splits field.splits prod.splits)
  show ?thesis using b tv tl o a by blast
qed

theorem two_device_ir_witness:
  "devices chain2 = [device6, device6] \<and>
   map_sum id total_ir_val (access_rows chain2 (S ''IDCODE'') (- 1) 0 False) = Inr 639 \<and>
   map_of (names device6) ''BYPASS'' = Some bypass_reg \<and>
   address bypass_reg < 2 ^ ir_len device6 \<and>
   (639 :: int) = int (address bypass_reg) OR push_bit (ir_len device6) 9"
proof -
  have d: "devices chain2 = [device6, device6]"
    by (simp add: chain2_def add_device_def init_JTAGRpi_def)
  obtain v where v: "access_rows chain2 (S ''IDCODE'') (- 1) 0 False = Inr v"
    and iv: "ir_val v = 9"
    by (simp add: access_rows_def d py_index_def name_address_def lookup_address_def Let_def
        device6_def idcode_reg_def bypass_reg_def total_ir_def)
  have b: "map_of (names device6) ''BYPASS'' = Some bypass_reg" by (simp add: device6_def)
  have l: "address bypass_reg < 2 ^ ir_len device6" by (simp add: device6_def bypass_reg_def)
  from two_device_ir [OF d v] b l iv
  have "total_ir_val v = int (address bypass_reg) + push_bit (ir_len device6) 9"
    and "total_ir_val v = int (address bypass_reg) OR push_bit (ir_len device6) 9"
    by auto
  moreover have "int (address bypass_reg) + push_bit (ir_len device6) 9 = 639"
    by (simp add: device6_def bypass_reg_def)
  ultimately show ?thesis using d v b l by simp
qed

theorem two_device_ir_counterexample:
  "map_sum id total_ir_val (access_rows chain2 (S ''IDCODE'') (- 1) 0 False) = Inr 639 \<and>
   ir_len (devices chain2 ! 0) = 6 \<and>
   map_option address (map_of (names (devices chain2 ! 0)) ''IDCODE'') = Some 9 \<and>
   map_option address (map_of (names (devices chain2 ! 1)) ''BYPASS'') = Some 63 \<and>
   (9 OR push_bit 6 63 :: int) = 4041"
  by code_simp

subsection \<open>The chain is not changed by the walker\<close>

lemma funpow_cycle_devices:
  "devices (((\<lambda>x. x\<lparr>pins := pins x @ c\<rparr>) ^^ n) s) = devices s"
  by (simp add: funpow_cycle)

lemma step_devices:
  assumes "jtag_step tgt s = Inr s'"
  shows "devices s' = devices s"
proof (cases "state s")
  case RUN_TEST_IDLE
  then show ?thesis using assms
    by (auto simp: jtag_step_def step_run_test_idle_def Let_def funpow_cycle
        split: option.splits if_splits list.splits)
next
  case SHIFT
  then show ?thesis using assms
    by (auto simp: jtag_step_def step_shift_def Let_def phy_sync_def
        split: option.splits if_splits list.splits)
next
  case UPDATE
  then show ?thesis using assms
    by (auto simp: jtag_step_def step_update_def Let_def
        split: sum.splits if_splits list.splits)
qed (use assms in \<open>auto simp: jtag_step_def split: if_splits\<close>)

lemma run_out_of_idle_devices:
  assumes "run_out_of_idle tgt s = Some r"
  shows "\<forall>s'. r = Inr s' \<longrightarrow> devices s' = devices s"
proof (rule run_out_of_idle.raw_induct
    [where P = "\<lambda>tgt s r. \<forall>s'. r = Inr s' \<longrightarrow> devices s' = devices s", OF _ assms])
  fix f :: "target \<Rightarrow> JTAGRpi \<Rightarrow> (error + JTAGRpi) option" and tgt s r
  assume IH: "\<And>t s y. f t s = Some y \<Longrightarrow> \<forall>s'. y = Inr s' \<longrightarrow> devices s' = devices s"
    and eq: "(if idle s
               then case jtag_step tgt s of
                      Inl e \<Rightarrow> Some (Inl e)
                    | Inr s' \<Rightarrow> if cur_leg s' = None then Some (Inr s') else f tgt s'
               else Some (Inr s)) = Some r"
  show "\<forall>s'. r = Inr s' \<longrightarrow> devices s' = devices s"
  proof (cases "idle s")
    case False
    with eq show ?thesis by auto
  next
    case True
    show ?thesis
    proof (cases "jtag_step tgt s")
      case (Inl e)
      with eq True show ?thesis by auto
    next
      case (Inr s1)
      have d: "devices s1 = devices s" by (rule step_devices [OF Inr])
      show ?thesis
      proof (cases "cur_leg s1 = None")
        case True
        with eq \<open>idle s\<close> Inr d show ?thesis by auto
      next
        case False
        with eq \<open>idle s\<close> Inr have "f tgt s1 = Some r" by simp
        from IH [OF this] show ?thesis unfolding d .
      qed
    qed
  qed
qed

lemma run_to_idle_devices:
  assumes "run_to_idle tgt s = Some r"
  shows "\<forall>s'. r = Inr s' \<longrightarrow> devices s' = devices s"
proof (rule run_to_idle.raw_induct
    [where P = "\<lambda>tgt s r. \<forall>s'. r = Inr s' \<longrightarrow> devices s' = devices s", OF _ assms])
  fix f :: "target \<Rightarrow> JTAGRpi \<Rightarrow> (error + JTAGRpi) option" and tgt s r
  assume IH: "\<And>t s y. f t s = Some y \<Longrightarrow> \<forall>s'. y = Inr s' \<longrightarrow> devices s' = devices s"
    and eq: "(if \<not> idle s
               then case jtag_step tgt s of
                      Inl e \<Rightarrow> Some (Inl e)
                    | Inr s' \<Rightarrow> f tgt s'
               else Some (Inr s)) = Some r"
  show "\<forall>s'. r = Inr s' \<longrightarrow> devices s' = devices s"
  proof (cases "idle s")
    case True
    with eq show ?thesis by auto
  next
    case False
    show ?thesis
    proof (cases "jtag_step tgt s")
      case (Inl e)
      with eq False show ?thesis by auto
    next
      case (Inr s1)
      have d: "devices s1 = devices s" by (rule step_devices [OF Inr])
      from eq False Inr have "f tgt s1 = Some r" by simp
      from IH [OF this] show ?thesis unfolding d .
    qed
  qed
qed

lemma jtag_next_devices:
  assumes "jtag_next tgt s = Some (Inr s')"
  shows "devices s' = devices s"
proof (cases "idle s")
  case False
  then have r: "run_to_idle tgt s = Some (Inr s')" using assms by (simp add: jtag_next_def)
  show ?thesis by (rule run_to_idle_devices [OF r, rule_format, OF refl])
next
  case True
  show ?thesis
  proof (cases "jtag_legs s = []")
    case True
    with \<open>idle s\<close> assms have "jtag_step tgt s = Inr s'" by (simp add: jtag_next_def)
    then show ?thesis by (rule step_devices)
  next
    case False
    with True assms obtain s1 where 1: "run_out_of_idle tgt s = Some (Inr s1)"
      and 2: "run_to_idle tgt s1 = Some (Inr s')"
      by (auto simp: jtag_next_def split: option.splits sum.splits)
    show ?thesis
      using run_out_of_idle_devices [OF 1, rule_format, OF refl]
        run_to_idle_devices [OF 2, rule_format, OF refl] by simp
  qed
qed

lemma process_command_devices:
  assumes "process_command tgt s = Some r"
  shows "\<forall>s'. r = Inr s' \<longrightarrow> devices s' = devices s"
proof (rule process_command.raw_induct
    [where P = "\<lambda>tgt s r. \<forall>s'. r = Inr s' \<longrightarrow> devices s' = devices s", OF _ assms])
  fix f :: "target \<Rightarrow> JTAGRpi \<Rightarrow> (error + JTAGRpi) option" and tgt s r
  assume IH: "\<And>t s y. f t s = Some y \<Longrightarrow> \<forall>s'. y = Inr s' \<longrightarrow> devices s' = devices s"
    and eq: "(if jtag_legs s \<noteq> []
               then case jtag_next tgt s of
                      None \<Rightarrow> None
                    | Some (Inl e) \<Rightarrow> Some (Inl e)
                    | Some (Inr s') \<Rightarrow> f tgt s'
               else Some (Inr s)) = Some r"
  show "\<forall>s'. r = Inr s' \<longrightarrow> devices s' = devices s"
  proof (cases "jtag_legs s = []")
    case True
    with eq show ?thesis by auto
  next
    case False
    show ?thesis
    proof (cases "jtag_next tgt s")
      case None
      with eq False show ?thesis by simp
    next
      case (Some y)
      show ?thesis
      proof (cases y)
        case (Inl e)
        with eq False Some show ?thesis by auto
      next
        case (Inr s1)
        have d: "devices s1 = devices s" by (rule jtag_next_devices [of tgt]) (simp add: Some Inr)
        from eq False Some Inr have "f tgt s1 = Some r" by simp
        from IH [OF this] show ?thesis unfolding d .
      qed
    qed
  qed
qed

lemma parse_row_devices: "parse_row s row = Inr s' \<Longrightarrow> devices s' = devices s"
  by (auto simp: parse_row_def Let_def split: if_splits sum.splits)

lemma parse_row_loop_devices: "parse_row_loop s rws = Inr s' \<Longrightarrow> devices s' = devices s"
proof (induction rws arbitrary: s)
  case Nil
  then show ?case by simp
next
  case (Cons row rws)
  then obtain s1 where 1: "parse_row s row = Inr s1" and 2: "parse_row_loop s1 rws = Inr s'"
    by (auto split: sum.splits)
  from Cons.IH [OF 2] parse_row_devices [OF 1] show ?case by simp
qed

lemma parse_rows_devices:
  assumes "parse_rows tgt s rws = Some (Inr s')"
  shows "devices s' = devices s"
proof -
  from assms obtain s1 where
    1: "parse_row_loop (s\<lparr>jtag_legs := [], cur_leg := None, jtag_results := []\<rparr>) rws = Inr s1"
    and 2: "process_command tgt s1 = Some (Inr s')"
    by (auto simp: parse_rows_def split: sum.splits)
  show ?thesis
    using parse_row_loop_devices [OF 1] process_command_devices [OF 2, rule_format, OF refl] by simp
qed

subsection \<open>Bit placement in the data vector\<close>

lemma small_fits: "n < 2 ^ 64 \<Longrightarrow> (n::int) < 2 ^ max_str_digits"
proof -
  assume "n < 2 ^ 64"
  moreover have "(2::int) ^ 64 \<le> 2 ^ max_str_digits"
    by (rule power_increasing) (simp_all add: max_str_digits_def)
  ultimately show ?thesis by (rule less_le_trans)
qed

lemma access_legs_eq:
  assumes "access_rows s addr data dev w = Inr v"
    "total_ir_val v < 2 ^ max_str_digits" "0 \<le> dr_val v" "dr_val v < 2 ^ max_str_digits"
  shows "access_legs s addr data dev w =
     Inr ((if total_ir_val v \<noteq> last_ir_val s
           then [(IR, replicate (total_ir_len v - length (bin_digits (nat (total_ir_val v))))
                        (CHR ''0'') @ bin_digits (nat (total_ir_val v)), S ''id'')]
           else []) @
          [(DR, replicate (nat (total_dr_len v) - length (bin_digits (nat (dr_val v))))
                  (CHR ''0'') @ bin_digits (nat (dr_val v)), S '' '')])"
proof -
  have dl: "0 \<le> total_dr_len v" by (rule access_rows_nonneg(2) [OF assms(1)])
  have iv: "0 \<le> total_ir_val v" by (rule access_rows_nonneg(1) [OF assms(1)])
  show ?thesis
    by (simp add: access_legs_def assms(1) access_rows_fields(5) [OF assms(1)]
        parse_row_ir [OF iv assms(2)] parse_row_dr [OF assms(3,4) dl])
qed

lemma access_legs_large:
  assumes "access_rows s addr data dev w = Inr v"
    "total_ir_val v < 2 ^ max_str_digits" "2 ^ max_str_digits \<le> dr_val v"
  shows "access_legs s addr data dev w = Inl ValueError"
    and "access tgt s addr data dev w = Some (Inl ValueError)"
proof -
  let ?s0 = "s\<lparr>jtag_legs := [], cur_leg := None, jtag_results := []\<rparr>"
  have dl: "0 \<le> total_dr_len v" by (rule access_rows_nonneg(2) [OF assms(1)])
  have iv: "0 \<le> total_ir_val v" by (rule access_rows_nonneg(1) [OF assms(1)])
  have p: "parse_row_loop ?s0 (rows v) = Inl ValueError"
    by (simp add: access_rows_fields(5) [OF assms(1)]
        parse_row_ir [OF iv assms(2)] parse_row_dr_large [OF assms(3) dl])
  show "access_legs s addr data dev w = Inl ValueError"
    by (simp add: access_legs_def assms(1) p)
  have "parse_rows tgt s (rows v) = Some (Inl ValueError)"
    by (simp add: parse_rows_def p)
  then show "access tgt s addr data dev w = Some (Inl ValueError)"
    by (simp add: access_def assms(1))
qed

lemma dr_leg_length:
  assumes "0 \<le> p" "p < 2 ^ n" "sh + n \<le> k" "0 < k"
  shows "length (replicate (k - length (bin_digits (nat (push_bit sh p)))) (CHR ''0'') @
     bin_digits (nat (push_bit sh p))) = k"
proof -
  have "push_bit sh p < 2 ^ (sh + n)"
    using assms(2) by (simp add: push_bit_eq_mult power_add mult.commute)
  also have "\<dots> \<le> 2 ^ k" using assms(3) by (simp add: power_increasing)
  finally have "nat (push_bit sh p) < 2 ^ k" by (simp add: nat_less_iff)
  then have "length (bin_digits (nat (push_bit sh p))) \<le> k"
    by (rule length_bin_digits [OF assms(4)])
  then show ?thesis by simp
qed

lemma access_returns:
  assumes "access_rows s addr data dev w = Inr v"
    "access tgt s addr data dev w = Some (Inr (r, s'))"
  shows "\<exists>s1. parse_rows tgt s (rows v) = Some (Inr s1) \<and> jtag_results s1 \<noteq> [] \<and>
     r = drop_bit (nat (int (length (devices s)) - 1 - dev)) (last (jtag_results s1)) AND dr_mask v \<and>
     s' = s1\<lparr>last_ir_val := total_ir_val v, jtag_results := butlast (jtag_results s1)\<rparr>"
proof -
  from assms obtain s1 where s1: "parse_rows tgt s (rows v) = Some (Inr s1)"
    by (auto simp: access_def split: option.splits sum.splits)
  have d: "devices s1 = devices s" by (rule parse_rows_devices [OF s1])
  from assms(2) have ne: "jtag_results s1 \<noteq> []"
    by (auto simp: access_def assms(1) s1 Let_def split: if_splits)
  with assms(2) have "r = drop_bit (nat (int (length (devices s)) - 1 - dev))
       (last (jtag_results s1)) AND dr_mask v"
    and "s' = s1\<lparr>last_ir_val := total_ir_val v, jtag_results := butlast (jtag_results s1)\<rparr>"
    by (simp_all add: access_def assms(1) s1 Let_def d access_rows_fields(1) [OF assms(1)])
  with s1 ne show ?thesis by blast
qed

text \<open>
  C2. Let \<open>access\<close> get as far as building its rows for a device index \<open>d \<ge> 0\<close> (the
  index is in range and the catalog look-ups succeed) and a register of width
  \<open>dr_len \<ge> 1\<close>, let \<open>N\<close> be the number of devices, and let \<open>total_ir_val\<close> have at most
  \<open>max_str_digits\<close> binary digits. Then \<open>dr_mask = 2 ^ dr_len - 1\<close> and
  \<open>total_dr_len = dr_len + N - 1\<close>. A write of a payload \<open>0 \<le> p < 2 ^ dr_len\<close> whose
  shifted value \<open>p << (N - 1 - d)\<close> has at most \<open>max_str_digits\<close> binary digits queues, after
  at most an IR leg, exactly one DR leg, whose bit string has \<open>total_dr_len\<close> characters and
  reads as the number \<open>p << (N - 1 - d)\<close>. Such a write, and every read, made while the
  walker is idle (in Run-Test/Idle or in Test-Logic-Reset) returns, and what it returns is
  \<open>(raw >> (N - 1 - d)) & dr_mask\<close> for the result \<open>raw\<close> that it pops off \<open>jtag_results\<close>.
  In whatever state a call is made, if it returns at all it returns that value.
\<close>

theorem chain_bit_placement:
  assumes "access_rows s addr p d w = Inr v" "0 \<le> d" "0 < dr_len v"
    "total_ir_val v < 2 ^ max_str_digits"
    "w \<longrightarrow> 0 \<le> p \<and> p < 2 ^ dr_len v \<and>
       push_bit (nat (int (length (devices s)) - 1 - d)) p < 2 ^ max_str_digits"
  shows "dr_mask v = 2 ^ dr_len v - 1 \<and>
     total_dr_len v = int (dr_len v) + int (length (devices s)) - 1 \<and>
     (w \<longrightarrow>
        (\<exists>pre bits. access_legs s addr p d w = Inr (pre @ [(DR, bits, S '' '')]) \<and>
           (\<forall>l \<in> set pre. fst l = IR) \<and>
           length bits = nat (total_dr_len v) \<and>
           int_base2 bits = Inr (push_bit (nat (int (length (devices s)) - 1 - d)) p))) \<and>
     (idle s \<longrightarrow>
        (\<exists>s1. parse_rows tgt s (rows v) = Some (Inr s1) \<and> jtag_results s1 \<noteq> [] \<and>
           access tgt s addr p d w =
             Some (Inr (drop_bit (nat (int (length (devices s)) - 1 - d)) (last (jtag_results s1))
                          AND dr_mask v,
                        s1\<lparr>last_ir_val := total_ir_val v,
                           jtag_results := butlast (jtag_results s1)\<rparr>)))) \<and>
     (\<forall>r s'. access tgt s addr p d w = Some (Inr (r, s')) \<longrightarrow>
        (\<exists>s1. parse_rows tgt s (rows v) = Some (Inr s1) \<and> jtag_results s1 \<noteq> [] \<and>
           r = drop_bit (nat (int (length (devices s)) - 1 - d)) (last (jtag_results s1))
                 AND dr_mask v \<and>
           jtag_results s' = butlast (jtag_results s1)))"
proof -
  let ?sh = "nat (int (length (devices s)) - 1 - d)"
  note f = access_rows_fields [OF assms(1)]
  have 1: "dr_mask v = 2 ^ dr_len v - 1" by (rule f(2))
  have 2: "total_dr_len v = int (dr_len v) + int (length (devices s)) - 1" by (rule f(3))
  have dv: "dr_val v = (if w then push_bit ?sh p else 0)" by (rule f(4))
  have d0: "0 \<le> dr_val v" using dv assms(5) by simp
  have d1: "dr_val v < 2 ^ max_str_digits" using dv assms(5) by simp
  have 3: "\<exists>pre bits. access_legs s addr p d w = Inr (pre @ [(DR, bits, S '' '')]) \<and>
           (\<forall>l \<in> set pre. fst l = IR) \<and>
           length bits = nat (total_dr_len v) \<and>
           int_base2 bits = Inr (push_bit ?sh p)"
    if w: "w"
  proof -
    let ?pre = "if total_ir_val v \<noteq> last_ir_val s
           then [(IR, replicate (total_ir_len v - length (bin_digits (nat (total_ir_val v))))
                        (CHR ''0'') @ bin_digits (nat (total_ir_val v)), S ''id'')]
           else []"
    let ?bits = "replicate (nat (total_dr_len v) - length (bin_digits (nat (push_bit ?sh p))))
                  (CHR ''0'') @ bin_digits (nat (push_bit ?sh p))"
    have p: "0 \<le> p" "p < 2 ^ dr_len v" using assms(5) w by simp_all
    have dw: "dr_val v = push_bit ?sh p" using dv w by simp
    have a: "access_legs s addr p d w = Inr (?pre @ [(DR, ?bits, S '' '')])"
      using access_legs_eq [OF assms(1,4) d0 d1] dw by simp
    have b: "\<forall>l \<in> set ?pre. fst l = IR" by simp
    have "?sh + dr_len v \<le> nat (total_dr_len v)" using 2 assms(2) f(9) by simp
    moreover have "0 < nat (total_dr_len v)" using 2 assms(3) f(9) assms(2) by simp
    ultimately have c: "length ?bits = nat (total_dr_len v)"
      by (rule dr_leg_length [OF p])
    have "0 \<le> push_bit ?sh p" using p(1) by simp
    then have e: "int_base2 ?bits = Inr (push_bit ?sh p)"
      by (simp add: int_base2_padded)
    from a b c e show ?thesis by blast
  qed
  have 4: "\<exists>s1. parse_rows tgt s (rows v) = Some (Inr s1) \<and> jtag_results s1 \<noteq> [] \<and>
           access tgt s addr p d w =
             Some (Inr (drop_bit ?sh (last (jtag_results s1)) AND dr_mask v,
                        s1\<lparr>last_ir_val := total_ir_val v,
                           jtag_results := butlast (jtag_results s1)\<rparr>))"
    if "idle s"
    using access_total [OF assms(1) that assms(4) d0 d1, of tgt] unfolding 1 by blast
  have 5: "\<exists>s1. parse_rows tgt s (rows v) = Some (Inr s1) \<and> jtag_results s1 \<noteq> [] \<and>
           r = drop_bit ?sh (last (jtag_results s1)) AND dr_mask v \<and>
           jtag_results s' = butlast (jtag_results s1)"
    if "access tgt s addr p d w = Some (Inr (r, s'))" for r s'
    using access_returns [OF assms(1) that] by auto
  show ?thesis using 1 2 3 4 5 by blast
qed

theorem chain_bit_placement_witness:
  "\<exists>v. access_rows chain2 (S ''IDCODE'') 3735928559 0 True = Inr v \<and> (0::int) \<le> 0 \<and>
     dr_len v = 32 \<and> total_ir_val v < 2 ^ max_str_digits \<and> (3735928559::int) < 2 ^ 32 \<and>
     push_bit (nat (int (length (devices chain2)) - 1 - 0)) (3735928559::int) = 7471857118 \<and>
     (7471857118::int) < 2 ^ max_str_digits \<and> idle chain2 \<and> total_dr_len v = 33 \<and>
     (\<exists>pre bits. access_legs chain2 (S ''IDCODE'') 3735928559 0 True =
          Inr (pre @ [(DR, bits, S '' '')]) \<and>
        length bits = 33 \<and> int_base2 bits = Inr 7471857118) \<and>
     (\<exists>s1. parse_rows toggling chain2 (rows v) = Some (Inr s1) \<and> jtag_results s1 \<noteq> [] \<and>
        map_option (map_sum id fst) (access toggling chain2 (S ''IDCODE'') 3735928559 0 True) =
          Some (Inr (drop_bit 1 (last (jtag_results s1)) AND 4294967295)))"
proof -
  have d: "devices chain2 = [device6, device6]"
    by (simp add: chain2_def add_device_def init_JTAGRpi_def)
  have st: "idle chain2"
    by (simp add: idle_def chain2_def add_device_def init_JTAGRpi_def)
  obtain v where v: "access_rows chain2 (S ''IDCODE'') 3735928559 0 True = Inr v"
    and w: "dr_len v = 32" and tv: "total_ir_val v = 639"
    by (simp add: access_rows_def d py_index_def name_address_def lookup_address_def Let_def
        device6_def idcode_reg_def bypass_reg_def total_ir_def)
  have i: "total_ir_val v < 2 ^ max_str_digits" unfolding tv by (rule small_fits) simp
  have p: "(3735928559::int) < 2 ^ dr_len v" by (simp add: w)
  have l: "total_dr_len v = 33" using access_rows_fields(3) [OF v] by (simp add: w d)
  have m: "dr_mask v = 4294967295" using access_rows_fields(2) [OF v] by (simp add: w)
  have sh: "push_bit (nat (int (length (devices chain2)) - 1 - 0)) (3735928559::int) = 7471857118"
    by (simp add: d)
  have sh1: "nat (int (length (devices chain2)) - 1 - 0) = 1" by (simp add: d)
  have b: "(7471857118::int) < 2 ^ max_str_digits" by (rule small_fits) simp
  have h: "True \<longrightarrow> 0 \<le> (3735928559::int) \<and> (3735928559::int) < 2 ^ dr_len v \<and>
       push_bit (nat (int (length (devices chain2)) - 1 - 0)) (3735928559::int) < 2 ^ max_str_digits"
    using p b unfolding sh by simp
  from chain_bit_placement [OF v _ _ i h, of toggling] st
  have "(\<exists>pre bits. access_legs chain2 (S ''IDCODE'') 3735928559 0 True =
          Inr (pre @ [(DR, bits, S '' '')]) \<and>
        length bits = nat (total_dr_len v) \<and>
        int_base2 bits =
          Inr (push_bit (nat (int (length (devices chain2)) - 1 - 0)) 3735928559))"
    and "\<exists>s1. parse_rows toggling chain2 (rows v) = Some (Inr s1) \<and> jtag_results s1 \<noteq> [] \<and>
        access toggling chain2 (S ''IDCODE'') 3735928559 0 True =
          Some (Inr (drop_bit (nat (int (length (devices chain2)) - 1 - 0))
                       (last (jtag_results s1)) AND dr_mask v,
                     s1\<lparr>last_ir_val := total_ir_val v,
                        jtag_results := butlast (jtag_results s1)\<rparr>))"
    by (auto simp: w)
  then have A: "\<exists>pre bits. access_legs chain2 (S ''IDCODE'') 3735928559 0 True =
          Inr (pre @ [(DR, bits, S '' '')]) \<and>
        length bits = 33 \<and> int_base2 bits = Inr 7471857118"
    and B: "\<exists>s1. parse_rows toggling chain2 (rows v) = Some (Inr s1) \<and> jtag_results s1 \<noteq> [] \<and>
        map_option (map_sum id fst) (access toggling chain2 (S ''IDCODE'') 3735928559 0 True) =
          Some (Inr (drop_bit 1 (last (jtag_results s1)) AND 4294967295))"
    unfolding sh sh1 l m by auto
  have n1: "(0::int) \<le> 0" and n2: "(3735928559::int) < 2 ^ 32" by simp_all
  show ?thesis
    using v n1 w i n2 sh b st l A B by (intro exI [of _ v] conjI) assumption+
qed

theorem chain_bit_placement_counterexample:
  "map_sum id dr_len (access_rows chain_wide (S ''WIDE'') (2 ^ max_str_digits) 0 True) =
     Inr (max_str_digits + 1) \<and>
   (0::int) \<le> 2 ^ max_str_digits \<and> (2::int) ^ max_str_digits < 2 ^ (max_str_digits + 1) \<and>
   length (devices chain_wide) = 1 \<and> idle chain_wide \<and>
   access_legs chain_wide (S ''WIDE'') (2 ^ max_str_digits) 0 True = Inl ValueError \<and>
   access toggling chain_wide (S ''WIDE'') (2 ^ max_str_digits) 0 True = Some (Inl ValueError)"
proof -
  have d: "devices chain_wide = [device_wide]"
    by (simp add: chain_wide_def add_device_def init_JTAGRpi_def)
  have st: "idle chain_wide"
    by (simp add: idle_def chain_wide_def add_device_def init_JTAGRpi_def)
  obtain v where v: "access_rows chain_wide (S ''WIDE'') (2 ^ max_str_digits) 0 True = Inr v"
    and w: "dr_len v = max_str_digits + 1" and tv: "total_ir_val v = 2"
    by (simp add: access_rows_def d py_index_def name_address_def lookup_address_def Let_def
        device_wide_def wide_reg_def bypass_reg_def total_ir_def)
  have i: "total_ir_val v < 2 ^ max_str_digits" unfolding tv by (rule small_fits) simp
  have dv: "dr_val v = 2 ^ max_str_digits" using access_rows_fields(4) [OF v] by (simp add: d)
  then have g: "2 ^ max_str_digits \<le> dr_val v" by simp
  note access_legs_large [OF v i g]
  then show ?thesis using v w d st by simp
qed

subsection \<open>When the instruction register is scanned\<close>











end
